theory Spec2Isabelle
  imports Main "HOL-Library.Multiset" "HOL-Library.Log_Nat" "HOL-Library.Signed_Division"
begin

section \<open>The quicksort benchmark: memory model\<close>

text \<open>
  The benchmark \<^verbatim>\<open>riscv_tests/qsort/qsort_main.c\<close> sorts a global array through raw
  pointers. A pointer into the array is modelled by its offset from the start of the
  array (an \<^typ>\<open>int\<close>, so that \<^verbatim>\<open>ir - l\<close> may be negative as in C), and the array
  by the list of its cells. The element type is the macro \<^verbatim>\<open>type\<close> of the source
  (\<^verbatim>\<open>#define type int\<close>); the model keeps it as a type variable and compares two
  elements through \<open>key\<close>, which is the identity for the benchmark's \<^verbatim>\<open>int\<close> data.

  An access outside the object is undefined behaviour in C; here it is the value
  \<open>Inl ArrayBounds\<close>. Every access is checked against a window \<open>(lo, hi)\<close> of permitted
  cells as well as against the length of the list: \<open>sort\<close> runs with the window of the
  \<open>n\<close> cells it was handed.
\<close>

datatype fault = ArrayBounds | StackBounds | StackUninit | SizeWrap

type_synonym window = "int \<times> int"

definition rd :: "window \<Rightarrow> 'a list \<Rightarrow> int \<Rightarrow> fault + 'a" where
  "rd W xs p =
     (if fst W \<le> p \<and> p \<le> snd W \<and> 0 \<le> p \<and> p < int (length xs)
      then Inr (xs ! nat p) else Inl ArrayBounds)"

definition wr :: "window \<Rightarrow> 'a list \<Rightarrow> int \<Rightarrow> 'a \<Rightarrow> fault + 'a list" where
  "wr W xs p v =
     (if fst W \<le> p \<and> p \<le> snd W \<and> 0 \<le> p \<and> p < int (length xs)
      then Inr (xs[nat p := v]) else Inl ArrayBounds)"

text \<open>\<^verbatim>\<open>#define SWAP(a,b) do { typeof(a) temp=(a);(a)=(b);(b)=temp; } while (0)\<close>\<close>

definition SWAP :: "window \<Rightarrow> 'a list \<Rightarrow> int \<Rightarrow> int \<Rightarrow> fault + 'a list" where
  "SWAP W xs p q =
     (case rd W xs p of Inl e \<Rightarrow> Inl e | Inr temp \<Rightarrow>
      case rd W xs q of Inl e \<Rightarrow> Inl e | Inr b \<Rightarrow>
      case wr W xs p b of Inl e \<Rightarrow> Inl e | Inr xs1 \<Rightarrow>
      wr W xs1 q temp)"

text \<open>\<^verbatim>\<open>#define SWAP_IF_GREATER(a, b) do { if ((a) > (b)) SWAP(a, b); } while (0)\<close>\<close>

definition SWAP_IF_GREATER ::
  "('a \<Rightarrow> int) \<Rightarrow> window \<Rightarrow> 'a list \<Rightarrow> int \<Rightarrow> int \<Rightarrow> fault + 'a list" where
  "SWAP_IF_GREATER key W xs p q =
     (case rd W xs p of Inl e \<Rightarrow> Inl e | Inr a \<Rightarrow>
      case rd W xs q of Inl e \<Rightarrow> Inl e | Inr b \<Rightarrow>
      if key a > key b then SWAP W xs p q else Inr xs)"

section \<open>Insertion sort\<close>

text \<open>
  The inner loop of \<^verbatim>\<open>insertion_sort\<close>:
  \<^verbatim>\<open>while (value < *(j-1)) { *j = *(j-1); if (--j == arr) break; }\<close>
  It returns the array and the final \<open>j\<close>. \<open>arr\<close> is the offset of the routine's
  parameter \<^verbatim>\<open>arr\<close>, the first cell of the subrange.
\<close>

function ins_while ::
  "('a \<Rightarrow> int) \<Rightarrow> window \<Rightarrow> 'a list \<Rightarrow> int \<Rightarrow> int \<Rightarrow> 'a \<Rightarrow> fault + ('a list \<times> int)" where
  "ins_while key W xs arr j val =
     (case rd W xs (j - 1) of Inl e \<Rightarrow> Inl e | Inr u \<Rightarrow>
        if key val < key u then
          (case wr W xs j u of Inl e \<Rightarrow> Inl e | Inr xs' \<Rightarrow>
             if j - 1 = arr then Inr (xs', j - 1)
             else ins_while key W xs' arr (j - 1) val)
        else Inr (xs, j))"
  by pat_completeness auto
termination
  by (relation "measure (\<lambda>(key, W, xs, arr, j, val). nat j)")
     (auto simp: rd_def split: if_splits)

text \<open>
  The outer loop \<^verbatim>\<open>for (i = arr+1; i < arr+n; i++) { value = *i; j = i; ...; *j = value; }\<close>
\<close>

function ins_for ::
  "('a \<Rightarrow> int) \<Rightarrow> window \<Rightarrow> 'a list \<Rightarrow> int \<Rightarrow> int \<Rightarrow> int \<Rightarrow> fault + 'a list" where
  "ins_for key W xs arr n i =
     (if i < arr + n then
        (case rd W xs i of Inl e \<Rightarrow> Inl e | Inr val \<Rightarrow>
         case ins_while key W xs arr i val of Inl e \<Rightarrow> Inl e | Inr (xs', j) \<Rightarrow>
         case wr W xs' j val of Inl e \<Rightarrow> Inl e | Inr xs'' \<Rightarrow>
         ins_for key W xs'' arr n (i + 1))
      else Inr xs)"
  by pat_completeness auto
termination
  by (relation "measure (\<lambda>(key, W, xs, arr, n, i). nat (arr + n - i))") auto

text \<open>
  \<^verbatim>\<open>static void insertion_sort(size_t n, type arr[])\<close>. The count is a \<^verbatim>\<open>size_t\<close>:
  a negative difference passed for it would wrap to a huge count and \<^verbatim>\<open>arr+n\<close> would
  leave the object, which is undefined; the model reports it as \<open>SizeWrap\<close>.
\<close>

definition insertion_sort ::
  "('a \<Rightarrow> int) \<Rightarrow> window \<Rightarrow> int \<Rightarrow> int \<Rightarrow> 'a list \<Rightarrow> fault + 'a list" where
  "insertion_sort key W n arr xs =
     (if n < 0 then Inl SizeWrap else ins_for key W xs arr n (arr + 1))"

section \<open>Partitioning\<close>

text \<open>\<^verbatim>\<open>#define INSERTION_THRESHOLD 10\<close> and \<^verbatim>\<open>#define NSTACK 50\<close>\<close>

definition INSERTION_THRESHOLD :: int where
  "INSERTION_THRESHOLD = 10"

definition NSTACK :: int where
  "NSTACK = 50"

text \<open>
  Median of three, lines 93 to 96 of the source. \<open>l\<close> and \<open>ir\<close> are the offsets of the
  pointers \<^verbatim>\<open>l\<close> and \<^verbatim>\<open>ir\<close>: the working subrange is the cells \<open>l - 1\<close> to \<open>ir - 1\<close>.
  C's division truncates towards zero, which is \<open>sdiv\<close>.
  \<^verbatim>\<open>
      SWAP(arr[((l-arr) + (ir-arr))/2-1], l[0]);
      SWAP_IF_GREATER(l[-1], ir[-1]);
      SWAP_IF_GREATER(l[0], ir[-1]);
      SWAP_IF_GREATER(l[-1], l[0]);
  \<close>
\<close>

definition median3 ::
  "('a \<Rightarrow> int) \<Rightarrow> window \<Rightarrow> 'a list \<Rightarrow> int \<Rightarrow> int \<Rightarrow> fault + 'a list" where
  "median3 key W xs l ir =
     (case SWAP W xs ((l + ir) sdiv 2 - 1) l of Inl e \<Rightarrow> Inl e | Inr xs1 \<Rightarrow>
      case SWAP_IF_GREATER key W xs1 (l - 1) (ir - 1) of Inl e \<Rightarrow> Inl e | Inr xs2 \<Rightarrow>
      case SWAP_IF_GREATER key W xs2 l (ir - 1) of Inl e \<Rightarrow> Inl e | Inr xs3 \<Rightarrow>
      SWAP_IF_GREATER key W xs3 (l - 1) l)"

text \<open>\<^verbatim>\<open>while (*i++ < a);\<close> reads the cell \<open>i\<close>, then increments \<open>i\<close>, then tests.\<close>

function scan_up :: "('a \<Rightarrow> int) \<Rightarrow> window \<Rightarrow> 'a list \<Rightarrow> int \<Rightarrow> 'a \<Rightarrow> fault + int" where
  "scan_up key W xs i a =
     (case rd W xs i of Inl e \<Rightarrow> Inl e | Inr v \<Rightarrow>
        if key v < key a then scan_up key W xs (i + 1) a else Inr (i + 1))"
  by pat_completeness auto
termination
  by (relation "measure (\<lambda>(key, W, xs, i, a). nat (int (length xs) - i))")
     (auto simp: rd_def split: if_splits)

text \<open>\<^verbatim>\<open>while (*(j-- - 2) > a);\<close> reads the cell \<open>j - 2\<close>, then decrements \<open>j\<close>, then tests.\<close>

function scan_down :: "('a \<Rightarrow> int) \<Rightarrow> window \<Rightarrow> 'a list \<Rightarrow> int \<Rightarrow> 'a \<Rightarrow> fault + int" where
  "scan_down key W xs j a =
     (case rd W xs (j - 2) of Inl e \<Rightarrow> Inl e | Inr v \<Rightarrow>
        if key v > key a then scan_down key W xs (j - 1) a else Inr (j - 1))"
  by pat_completeness auto
termination
  by (relation "measure (\<lambda>(key, W, xs, j, a). nat j)")
     (auto simp: rd_def split: if_splits)

text \<open>
  The innermost \<^verbatim>\<open>for (;;)\<close> of the source:
  \<^verbatim>\<open>
      for (;;) {
        while (*i++ < a);
        while (*(j-- - 2) > a);
        if (j < i) break;
        SWAP(i[-1], j[-1]);
      }
  \<close>
  It returns the array and the final cursors \<open>i\<close> and \<open>j\<close>.
\<close>

function partition_loop ::
  "('a \<Rightarrow> int) \<Rightarrow> window \<Rightarrow> 'a list \<Rightarrow> int \<Rightarrow> int \<Rightarrow> 'a \<Rightarrow> fault + ('a list \<times> int \<times> int)" where
  "partition_loop key W xs i j a =
     (case scan_up key W xs i a of Inl e \<Rightarrow> Inl e | Inr i' \<Rightarrow>
      case scan_down key W xs j a of Inl e \<Rightarrow> Inl e | Inr j' \<Rightarrow>
        if j' < i' then Inr (xs, i', j')
        else (case SWAP W xs (i' - 1) (j' - 1) of Inl e \<Rightarrow> Inl e | Inr xs' \<Rightarrow>
                partition_loop key W xs' i' j' a))"
  by pat_completeness auto
termination
proof (relation "measure (\<lambda>(key, W, xs, i, j, a). nat (int (length xs) - i))")
  show "wf (measure (\<lambda>(key, W, xs, i, j, a). nat (int (length xs) - i)))"
    by simp
next
  fix key :: "'a \<Rightarrow> int" and W xs i j a i' j' xs'
  assume up: "scan_up key W xs i a = Inr i'"
    and sw: "SWAP W xs (i' - 1) (j' - 1) = Inr xs'"
  have adv: "scan_up key W xs i a = Inr i' \<Longrightarrow> i < i' \<and> i' \<le> int (length xs)"
    for key :: "'a \<Rightarrow> int" and W xs i a i'
  proof (induction key W xs i a rule: scan_up.induct)
    case (1 key W xs i a)
    show ?case
    proof (cases "rd W xs i")
      case (Inl e)
      with "1.prems" show ?thesis by simp
    next
      case (Inr v)
      then have b: "0 \<le> i" "i < int (length xs)"
        by (auto simp: rd_def split: if_splits)
      show ?thesis
      proof (cases "key v < key a")
        case True
        with Inr "1.prems" have "scan_up key W xs (i + 1) a = Inr i'" by simp
        from "1.IH"[OF Inr True this] show ?thesis by simp
      next
        case False
        with Inr "1.prems" b show ?thesis by simp
      qed
    qed
  qed
  from sw have "length xs' = length xs"
    by (auto simp: SWAP_def rd_def wr_def split: if_splits)
  with adv[OF up]
  show "((key, W, xs', i', j', a), (key, W, xs, i, j, a))
          \<in> measure (\<lambda>(key, W, xs, i, j, a). nat (int (length xs) - i))"
    by simp
qed

text \<open>
  Partitioning of the subrange after the median of three:
  \<^verbatim>\<open>
      type* i = l+1;
      type* j = ir;
      type a = l[0];
      for (;;) { ... }
      l[0] = j[-1];
      j[-1] = a;
  \<close>
\<close>

definition partition_scan ::
  "('a \<Rightarrow> int) \<Rightarrow> window \<Rightarrow> 'a list \<Rightarrow> int \<Rightarrow> int \<Rightarrow> fault + ('a list \<times> int \<times> int)" where
  "partition_scan key W xs l ir =
     (case rd W xs l of Inl e \<Rightarrow> Inl e | Inr a \<Rightarrow>
      case partition_loop key W xs (l + 1) ir a of Inl e \<Rightarrow> Inl e | Inr (xs1, i, j) \<Rightarrow>
      case rd W xs1 (j - 1) of Inl e \<Rightarrow> Inl e | Inr v \<Rightarrow>
      case wr W xs1 l v of Inl e \<Rightarrow> Inl e | Inr xs2 \<Rightarrow>
      case wr W xs2 (j - 1) a of Inl e \<Rightarrow> Inl e | Inr xs3 \<Rightarrow>
      Inr (xs3, i, j))"

section \<open>The partition stack and the main loop\<close>

text \<open>
  \<^verbatim>\<open>type* stack[NSTACK]; type** stackp = stack;\<close> The stack array is not initialised:
  a slot holds \<open>None\<close> until it is written. \<open>stackp\<close> is the offset of the pointer
  \<^verbatim>\<open>stackp\<close> from \<^verbatim>\<open>stack\<close>. A load or store outside the \<open>NSTACK\<close> slots is a fault.
\<close>

record 'a sort_state =
  mem :: "'a list"
  ir :: int
  l :: int
  stack :: "int \<Rightarrow> int option"
  stackp :: int

definition stack_ld :: "(int \<Rightarrow> int option) \<Rightarrow> int \<Rightarrow> fault + int" where
  "stack_ld st k =
     (if 0 \<le> k \<and> k < NSTACK
      then (case st k of None \<Rightarrow> Inl StackUninit | Some p \<Rightarrow> Inr p)
      else Inl StackBounds)"

definition stack_st :: "(int \<Rightarrow> int option) \<Rightarrow> int \<Rightarrow> int \<Rightarrow> fault + (int \<Rightarrow> int option)" where
  "stack_st st k p = (if 0 \<le> k \<and> k < NSTACK then Inr (st(k \<mapsto> p)) else Inl StackBounds)"

text \<open>
  The branch of the main loop for a small subrange (lines 81 to 87). The flag of the
  result is \<open>True\<close> when the loop leaves through \<^verbatim>\<open>break\<close>.
  \<^verbatim>\<open>
      insertion_sort(ir - l + 1, l - 1);
      if ( stackp == stack ) break;
      ir = *stackp--;
      l = *stackp--;
  \<close>
\<close>

definition small_branch ::
  "('a \<Rightarrow> int) \<Rightarrow> window \<Rightarrow> 'a sort_state \<Rightarrow> fault + (bool \<times> 'a sort_state)" where
  "small_branch key W s =
     (case insertion_sort key W (ir s - l s + 1) (l s - 1) (mem s) of Inl e \<Rightarrow> Inl e
      | Inr xs1 \<Rightarrow>
        if stackp s = 0 then Inr (True, s\<lparr>mem := xs1\<rparr>)
        else
          (case stack_ld (stack s) (stackp s) of Inl e \<Rightarrow> Inl e | Inr ir' \<Rightarrow>
           case stack_ld (stack s) (stackp s - 1) of Inl e \<Rightarrow> Inl e | Inr l' \<Rightarrow>
           Inr (False, s\<lparr>mem := xs1, ir := ir', l := l', stackp := stackp s - 2\<rparr>)))"

text \<open>
  The branch for a large subrange (lines 93 to 131): median of three, partition, then
  \<^verbatim>\<open>
      stackp += 2;
      if ( ir-i+1 >= j-l ) { stackp[0] = ir; stackp[-1] = i; ir = j-1; }
      else                 { stackp[0] = j-1; stackp[-1] = l; l = i; }
  \<close>
\<close>

definition large_branch ::
  "('a \<Rightarrow> int) \<Rightarrow> window \<Rightarrow> 'a sort_state \<Rightarrow> fault + (bool \<times> 'a sort_state)" where
  "large_branch key W s =
     (case median3 key W (mem s) (l s) (ir s) of Inl e \<Rightarrow> Inl e | Inr xs1 \<Rightarrow>
      case partition_scan key W xs1 (l s) (ir s) of Inl e \<Rightarrow> Inl e | Inr (xs2, i, j) \<Rightarrow>
        let sp = stackp s + 2 in
        if ir s - i + 1 \<ge> j - l s then
          (case stack_st (stack s) sp (ir s) of Inl e \<Rightarrow> Inl e | Inr st1 \<Rightarrow>
           case stack_st st1 (sp - 1) i of Inl e \<Rightarrow> Inl e | Inr st2 \<Rightarrow>
           Inr (False, s\<lparr>mem := xs2, ir := j - 1, stack := st2, stackp := sp\<rparr>))
        else
          (case stack_st (stack s) sp (j - 1) of Inl e \<Rightarrow> Inl e | Inr st1 \<Rightarrow>
           case stack_st st1 (sp - 1) (l s) of Inl e \<Rightarrow> Inl e | Inr st2 \<Rightarrow>
           Inr (False, s\<lparr>mem := xs2, l := i, stack := st2, stackp := sp\<rparr>)))"

text \<open>One pass through the body of the outer \<^verbatim>\<open>for (;;)\<close>: \<^verbatim>\<open>if ( ir-l < INSERTION_THRESHOLD )\<close>.\<close>

definition sort_body ::
  "('a \<Rightarrow> int) \<Rightarrow> window \<Rightarrow> 'a sort_state \<Rightarrow> fault + (bool \<times> 'a sort_state)" where
  "sort_body key W s =
     (if ir s - l s < INSERTION_THRESHOLD then small_branch key W s
      else large_branch key W s)"

text \<open>
  \<^verbatim>\<open>type* ir = arr+n; type* l = arr+1; type* stack[NSTACK]; type** stackp = stack;\<close>
\<close>

definition sort_init :: "nat \<Rightarrow> 'a list \<Rightarrow> 'a sort_state" where
  "sort_init n xs = \<lparr>mem = xs, ir = int n, l = 1, stack = Map.empty, stackp = 0\<rparr>"

text \<open>
  The outer \<^verbatim>\<open>for (;;)\<close> has no bound of its own, so it is a partial function: \<open>None\<close>
  stands for a loop that never leaves. A return is \<open>Some (Inr xs)\<close> with the final array,
  a fault is \<open>Some (Inl e)\<close>.
\<close>

partial_function (option) sort_loop ::
  "('a \<Rightarrow> int) \<Rightarrow> window \<Rightarrow> 'a sort_state \<Rightarrow> (fault + 'a list) option" where
  "sort_loop key W s =
     (case sort_body key W s of
        Inl e \<Rightarrow> Some (Inl e)
      | Inr r \<Rightarrow> if fst r then Some (Inr (mem (snd r))) else sort_loop key W (snd r))"

text \<open>\<^verbatim>\<open>void sort(size_t n, type arr[])\<close>, on the \<open>n\<close> cells it is given.\<close>

definition sort :: "('a \<Rightarrow> int) \<Rightarrow> nat \<Rightarrow> 'a list \<Rightarrow> (fault + 'a list) option" where
  "sort key n xs = sort_loop key (0, int n - 1) (sort_init n xs)"


text \<open>
  The states the main loop passes through on the call \<^verbatim>\<open>sort(n, arr)\<close>: the state at
  the top of each pass of the outer \<^verbatim>\<open>for (;;)\<close>.
\<close>

inductive reach :: "('a \<Rightarrow> int) \<Rightarrow> nat \<Rightarrow> 'a list \<Rightarrow> 'a sort_state \<Rightarrow> bool"
  for key :: "'a \<Rightarrow> int" and n :: nat and xs :: "'a list" where
  reach_init: "reach key n xs (sort_init n xs)"
| reach_step: "reach key n xs s \<Longrightarrow> sort_body key (0, int n - 1) s = Inr (False, s')
                 \<Longrightarrow> reach key n xs s'"

declare ins_while.simps [simp del] ins_for.simps [simp del] scan_up.simps [simp del]
  scan_down.simps [simp del] partition_loop.simps [simp del]

section \<open>Notions used to state the properties\<close>

text \<open>
  \<open>stable_sorted key xs ys\<close>: \<open>ys\<close> is \<open>xs\<close> sorted by \<open>key\<close>, and elements with the same
  key keep the order they have in \<open>xs\<close>.
\<close>

definition stable_sorted :: "('a \<Rightarrow> int) \<Rightarrow> 'a list \<Rightarrow> 'a list \<Rightarrow> bool" where
  "stable_sorted key xs ys \<longleftrightarrow>
     sorted (map key ys) \<and> mset ys = mset xs
     \<and> (\<forall>k. filter (\<lambda>x. key x = k) ys = filter (\<lambda>x. key x = k) xs)"

text \<open>
  \<open>permuted_in lo hi xs xs'\<close>: \<open>xs'\<close> has the elements of \<open>xs\<close>, and the cells outside
  \<open>lo..hi\<close> are unchanged. \<open>cut key n xs b\<close>: among the first \<open>n\<close> cells, every cell
  before \<open>b\<close> is at most every cell from \<open>b\<close> on.
\<close>

definition permuted_in :: "int \<Rightarrow> int \<Rightarrow> 'a list \<Rightarrow> 'a list \<Rightarrow> bool" where
  "permuted_in lo hi xs xs' \<longleftrightarrow>
     length xs' = length xs \<and> mset xs' = mset xs
     \<and> (\<forall>p. 0 \<le> p \<and> p < int (length xs) \<and> (p < lo \<or> hi < p) \<longrightarrow> xs' ! nat p = xs ! nat p)"

definition cut :: "('a \<Rightarrow> int) \<Rightarrow> nat \<Rightarrow> 'a list \<Rightarrow> int \<Rightarrow> bool" where
  "cut key n xs b \<longleftrightarrow>
     (\<forall>p q. 0 \<le> p \<and> p < b \<and> b \<le> q \<and> q < int n \<longrightarrow> key (xs ! nat p) \<le> key (xs ! nat q))"

text \<open>
  The invariant of the main loop. The pair number \<open>k\<close> of the stack lies in the slots
  \<open>2k + 1\<close> and \<open>2k + 2\<close>; the slot \<open>0\<close> is not used. A boundary \<open>b\<close> is inside a
  pending subrange when it separates two cells of the current subrange or of a subrange
  on the stack; every other boundary is a cut already.
\<close>

definition on_stack :: "'a sort_state \<Rightarrow> nat \<Rightarrow> int \<Rightarrow> int \<Rightarrow> bool" where
  "on_stack s k pl pir \<longleftrightarrow>
     2 * int k + 2 \<le> stackp s \<and> stack s (2 * int k + 1) = Some pl
     \<and> stack s (2 * int k + 2) = Some pir"

definition inside_pending :: "'a sort_state \<Rightarrow> int \<Rightarrow> bool" where
  "inside_pending s b \<longleftrightarrow>
     (l s \<le> b \<and> b < ir s) \<or> (\<exists>k pl pir. on_stack s k pl pir \<and> pl \<le> b \<and> b < pir)"

fun stack_weight :: "(int \<Rightarrow> int option) \<Rightarrow> nat \<Rightarrow> nat" where
  "stack_weight st 0 = 0"
| "stack_weight st (Suc k) =
     stack_weight st k
       + (2 * nat (the (st (2 * int k + 2)) - the (st (2 * int k + 1)) + 1) + 1)"

definition weight :: "'a sort_state \<Rightarrow> nat" where
  "weight s = stack_weight (stack s) (nat (stackp s div 2)) + (2 * nat (ir s - l s + 1) + 1)"

definition ranges_ok :: "nat \<Rightarrow> 'a sort_state \<Rightarrow> bool" where
  "ranges_ok n s \<longleftrightarrow> 1 \<le> l s \<and> l s \<le> ir s + 1 \<and> ir s \<le> int n"

definition stack_ok :: "nat \<Rightarrow> 'a sort_state \<Rightarrow> bool" where
  "stack_ok n s \<longleftrightarrow>
     0 \<le> stackp s \<and> even (stackp s) \<and> dom (stack s) \<subseteq> {1..NSTACK - 2}
     \<and> (\<forall>k. 2 * int k + 2 \<le> stackp s \<longrightarrow> (\<exists>pl pir. on_stack s k pl pir))
     \<and> (\<forall>k pl pir. on_stack s k pl pir \<longrightarrow>
           1 \<le> pl \<and> pl < pir \<and> pir \<le> int n
           \<and> (pir - pl + 1) * 2 ^ k \<le> int n \<and> 11 * 2 ^ k \<le> int n)"

definition disjoint_ok :: "'a sort_state \<Rightarrow> bool" where
  "disjoint_ok s \<longleftrightarrow>
     (\<forall>k pl pir. on_stack s k pl pir \<longrightarrow> pir < l s \<or> ir s < pl)
     \<and> (\<forall>k pl pir k' pl' pir'. on_stack s k pl pir \<and> on_stack s k' pl' pir' \<and> k \<noteq> k'
           \<longrightarrow> pir < pl' \<or> pir' < pl)"

definition depth_ok :: "nat \<Rightarrow> 'a sort_state \<Rightarrow> bool" where
  "depth_ok n s \<longleftrightarrow> (ir s - l s + 1) * 2 ^ nat (stackp s div 2) \<le> int n"

definition cuts_ok :: "('a \<Rightarrow> int) \<Rightarrow> nat \<Rightarrow> 'a sort_state \<Rightarrow> bool" where
  "cuts_ok key n s \<longleftrightarrow>
     (\<forall>b. 0 \<le> b \<and> b \<le> int n \<and> \<not> inside_pending s b \<longrightarrow> cut key n (mem s) b)"

definition sort_inv :: "('a \<Rightarrow> int) \<Rightarrow> nat \<Rightarrow> 'a list \<Rightarrow> 'a sort_state \<Rightarrow> bool" where
  "sort_inv key n xs s \<longleftrightarrow>
     n \<le> length xs \<and> permuted_in 0 (int n - 1) xs (mem s)
     \<and> ranges_ok n s \<and> stack_ok n s \<and> disjoint_ok s \<and> depth_ok n s \<and> cuts_ok key n s"

section \<open>Insertion sort: proofs\<close>

lemma rd_nat:
  "fst W \<le> int k \<Longrightarrow> int k \<le> snd W \<Longrightarrow> k < length xs \<Longrightarrow> rd W xs (int k) = Inr (xs ! k)"
  by (simp add: rd_def)

lemma wr_nat:
  "fst W \<le> int k \<Longrightarrow> int k \<le> snd W \<Longrightarrow> k < length xs \<Longrightarrow> wr W xs (int k) v = Inr (xs[k := v])"
  by (simp add: wr_def)

lemma ins_while_spec:
  assumes "d1 \<noteq> []"
    and "\<forall>y\<in>set d2. key val < key y"
    and "fst W \<le> arr"
    and "j \<le> snd W"
    and "xs = pre @ d1 @ h # d2 @ post"
    and "arr = int (length pre)"
    and "j = int (length pre + length d1)"
  shows "\<exists>e1 e2 h'.
           ins_while key W xs arr j val
             = Inr (pre @ e1 @ h' # e2 @ post, int (length pre + length e1))
         \<and> e1 @ e2 = d1 @ d2
         \<and> (\<forall>y\<in>set e2. key val < key y)
         \<and> (e1 = [] \<or> key (last e1) \<le> key val)"
  using assms
proof (induction d1 arbitrary: d2 h xs j rule: rev_induct)
  case Nil
  then show ?case by simp
next
  case (snoc u d)
  let ?k = "length pre + length d"
  note xs = \<open>xs = pre @ (d @ [u]) @ h # d2 @ post\<close>
  have j: "j = int (Suc ?k)" "j - 1 = int ?k" using snoc.prems(7) by simp_all
  have len: "Suc ?k < length xs" "?k < length xs" using xs by simp_all
  have w1: "fst W \<le> int ?k" "int ?k \<le> snd W" "fst W \<le> int (Suc ?k)" "int (Suc ?k) \<le> snd W"
    using snoc.prems j by auto
  have nth: "xs ! ?k = u" using xs by (simp add: nth_append)
  have r: "rd W xs (j - 1) = Inr u"
    using rd_nat[OF w1(1,2) len(2)] by (simp only: j(2) nth)
  show ?case
  proof (cases "key val < key u")
    case False
    have "ins_while key W xs arr j val = Inr (xs, j)"
      by (subst ins_while.simps) (simp only: r sum.case False if_False)
    then have "ins_while key W xs arr j val
        = Inr (pre @ (d @ [u]) @ h # d2 @ post, int (length pre + length (d @ [u])))"
      by (simp only: xs snoc.prems(7))
    moreover have "key (last (d @ [u])) \<le> key val" using False by simp
    ultimately show ?thesis
      using snoc.prems(2) by blast
  next
    case True
    let ?xs' = "pre @ d @ u # (u # d2) @ post"
    have upd: "xs[Suc ?k := u] = ?xs'"
      using xs by (simp add: list_update_append)
    have w: "wr W xs j u = Inr ?xs'"
      using wr_nat[OF w1(3,4) len(1), of u] by (simp only: j(1) upd)
    have unf: "ins_while key W xs arr j val
          = (if j - 1 = arr then Inr (?xs', j - 1)
             else ins_while key W ?xs' arr (j - 1) val)"
      by (subst ins_while.simps) (simp only: r w sum.case True if_True)
    have dn_iff: "j - 1 = arr \<longleftrightarrow> d = []"
      using j snoc.prems(6) by simp
    show ?thesis
    proof (cases "d = []")
      case dn: True
      with unf dn_iff j have "ins_while key W xs arr j val
         = Inr (pre @ [] @ u # (u # d2) @ post, int (length pre + length ([]::'a list)))"
        by simp
      moreover have "[] @ (u # d2) = (d @ [u]) @ d2" using dn by simp
      moreover have "\<forall>y\<in>set (u # d2). key val < key y" using True snoc.prems(2) by simp
      ultimately show ?thesis by blast
    next
      case dn: False
      have p2: "\<forall>y\<in>set (u # d2). key val < key y" using True snoc.prems(2) by simp
      have p4: "j - 1 \<le> snd W" using snoc.prems(4) by simp
      have p5: "?xs' = pre @ d @ u # (u # d2) @ post" by simp
      have p7: "j - 1 = int (length pre + length d)" using j by simp
      from snoc.IH[OF dn p2 snoc.prems(3) p4 p5 snoc.prems(6) p7]
      obtain e1 e2 h' where
        e: "ins_while key W ?xs' arr (j - 1) val
              = Inr (pre @ e1 @ h' # e2 @ post, int (length pre + length e1))"
          "e1 @ e2 = d @ u # d2" "\<forall>y\<in>set e2. key val < key y"
          "e1 = [] \<or> key (last e1) \<le> key val"
        by blast
      from unf dn dn_iff e(1) have "ins_while key W xs arr j val
          = Inr (pre @ e1 @ h' # e2 @ post, int (length pre + length e1))"
        by simp
      moreover have "e1 @ e2 = (d @ [u]) @ d2" using e(2) by simp
      ultimately show ?thesis using e(3,4) by blast
    qed
  qed
qed


lemma stable_sorted_single: "stable_sorted key [x] [x]"
  by (simp add: stable_sorted_def)

lemma stable_sorted_insert:
  assumes ss: "stable_sorted key xs (d1 @ d2)"
    and gt: "\<forall>y\<in>set d2. key v < key y"
    and le: "d1 = [] \<or> key (last d1) \<le> key v"
  shows "stable_sorted key (xs @ [v]) (d1 @ v # d2)"
proof -
  from ss have so: "sorted (map key d1)" "sorted (map key d2)"
    and cross: "\<forall>x\<in>set d1. \<forall>y\<in>set d2. key x \<le> key y"
    and ms: "mset (d1 @ d2) = mset xs"
    and fl: "\<And>k. filter (\<lambda>x. key x = k) (d1 @ d2) = filter (\<lambda>x. key x = k) xs"
    by (auto simp: stable_sorted_def sorted_append)
  have d1v: "\<forall>x\<in>set d1. key x \<le> key v"
  proof
    fix x assume x: "x \<in> set d1"
    then have ne: "d1 \<noteq> []" by auto
    then have "d1 = butlast d1 @ [last d1]" by simp
    then have "sorted (map key (butlast d1 @ [last d1]))" using so(1) by simp
    then have "\<forall>y\<in>set (butlast d1). key y \<le> key (last d1)"
      by (auto simp: sorted_append)
    moreover have "x \<in> set (butlast d1) \<or> x = last d1"
      using x ne by (metis Un_iff append_butlast_last_id empty_iff empty_set set_ConsD set_append)
    ultimately have "key x \<le> key (last d1)" by auto
    with le ne show "key x \<le> key v" by auto
  qed
  have s: "sorted (map key (d1 @ v # d2))"
    using so cross d1v gt by (auto simp: sorted_append less_imp_le)
  have m: "mset (d1 @ v # d2) = mset (xs @ [v])"
    using ms by simp
  have f: "filter (\<lambda>x. key x = k) (d1 @ v # d2) = filter (\<lambda>x. key x = k) (xs @ [v])" for k
  proof (cases "key v = k")
    case True
    then have "filter (\<lambda>x. key x = k) d2 = []"
      using gt by (auto simp: filter_empty_conv)
    with True fl[of k] show ?thesis by simp
  next
    case False
    with fl[of k] show ?thesis by simp
  qed
  from s m f show ?thesis by (simp add: stable_sorted_def)
qed

lemma ins_for_spec:
  assumes "stable_sorted key s0 dn"
    and "dn \<noteq> []"
    and "fst W \<le> arr"
    and "arr + n - 1 \<le> snd W"
    and "xs = pre @ dn @ rest @ post"
    and "arr = int (length pre)"
    and "i = int (length pre + length dn)"
    and "n = int (length dn + length rest)"
  shows "\<exists>dn'. ins_for key W xs arr n i = Inr (pre @ dn' @ post)
               \<and> stable_sorted key (s0 @ rest) dn'"
  using assms
proof (induction rest arbitrary: xs i dn s0)
  case Nil
  then have "\<not> i < arr + n" by simp
  then have "ins_for key W xs arr n i = Inr xs"
    by (subst ins_for.simps) simp
  with Nil show ?case by auto
next
  case (Cons v rest)
  note xs = \<open>xs = pre @ dn @ (v # rest) @ post\<close>
  let ?k = "length pre + length dn"
  have lt: "i < arr + n" using Cons.prems by simp
  have ik: "i = int ?k" using Cons.prems by simp
  have w: "fst W \<le> int ?k" "int ?k \<le> snd W" using Cons.prems by auto
  have len: "?k < length xs" using xs by simp
  have nth: "xs ! ?k = v" using xs by (simp add: nth_append)
  have r: "rd W xs i = Inr v"
    using rd_nat[OF w len] by (simp only: ik nth)
  have iw: "i \<le> snd W" using w ik by simp
  have xs2: "xs = pre @ dn @ v # [] @ (rest @ post)" using xs by simp
  from ins_while_spec[OF Cons.prems(2) _ Cons.prems(3) iw xs2 Cons.prems(6) ik, of key v]
  obtain e1 e2 h' where
    e: "ins_while key W xs arr i v = Inr (pre @ e1 @ h' # e2 @ rest @ post, int (length pre + length e1))"
      "e1 @ e2 = dn" "\<forall>y\<in>set e2. key v < key y" "e1 = [] \<or> key (last e1) \<le> key v"
    by auto
  let ?xs' = "pre @ e1 @ h' # e2 @ rest @ post"
  let ?j = "length pre + length e1"
  let ?xs'' = "pre @ (e1 @ v # e2) @ rest @ post"
  have le: "length e1 + length e2 = length dn" using e(2) by (metis length_append)
  have wj: "fst W \<le> int ?j" "int ?j \<le> snd W" using Cons.prems le by auto
  have lenj: "?j < length ?xs'" by simp
  have upd: "?xs'[?j := v] = ?xs''" by (simp add: list_update_append)
  have wv: "wr W ?xs' (int ?j) v = Inr ?xs''"
    using wr_nat[OF wj lenj, of v] by (simp only: upd)
  have unf: "ins_for key W xs arr n i = ins_for key W ?xs'' arr n (i + 1)"
    by (subst ins_for.simps) (simp only: lt if_True r e(1) sum.case prod.case wv)
  have ss: "stable_sorted key (s0 @ [v]) (e1 @ v # e2)"
    using stable_sorted_insert[OF _ e(3,4), of s0] Cons.prems(1) e(2) by simp
  have ne: "e1 @ v # e2 \<noteq> []" by simp
  have i1: "i + 1 = int (length pre + length (e1 @ v # e2))" using ik le by simp
  have n1: "n = int (length (e1 @ v # e2) + length rest)" using Cons.prems(8) le by simp
  from Cons.IH[OF ss ne Cons.prems(3,4) refl Cons.prems(6) i1 n1]
  obtain dn' where "ins_for key W ?xs'' arr n (i + 1) = Inr (pre @ dn' @ post)"
    "stable_sorted key ((s0 @ [v]) @ rest) dn'" by blast
  with unf show ?case by auto
qed

lemma stable_sorted_Nil: "stable_sorted key [] []"
  by (simp add: stable_sorted_def)

lemma insertion_sort_spec:
  assumes "0 \<le> arr" "0 \<le> n" "arr + n \<le> int (length xs)"
    and "fst W \<le> arr" "arr + n - 1 \<le> snd W"
  shows "\<exists>seg'. insertion_sort key W n arr xs
                  = Inr (take (nat arr) xs @ seg' @ drop (nat (arr + n)) xs)
               \<and> stable_sorted key (take (nat n) (drop (nat arr) xs)) seg'"
proof (cases "n = 0")
  case True
  then have "insertion_sort key W n arr xs = Inr xs"
    unfolding insertion_sort_def by (subst ins_for.simps) simp
  with True show ?thesis
    by (intro exI[of _ "[]"]) (simp add: stable_sorted_Nil)
next
  case False
  define pre where "pre = take (nat arr) xs"
  define seg where "seg = take (nat n) (drop (nat arr) xs)"
  define post where "post = drop (nat (arr + n)) xs"
  have lp: "length pre = nat arr" using assms by (simp add: pre_def)
  have ls: "length seg = nat n" using assms by (simp add: seg_def)
  have "nat (arr + n) = nat arr + nat n" using assms by (simp add: nat_add_distrib)
  then have xs: "xs = pre @ seg @ post"
    unfolding pre_def seg_def post_def
    by (metis append_take_drop_id drop_drop add.commute)
  from False assms ls obtain v rest where seg: "seg = v # rest"
    by (cases seg) auto
  have xs2: "xs = pre @ [v] @ rest @ post" using xs seg by simp
  have a: "arr = int (length pre)" using lp assms by simp
  have i: "arr + 1 = int (length pre + length [v])" using a by simp
  have n: "n = int (length [v] + length rest)" using ls seg assms by simp
  from ins_for_spec[OF stable_sorted_single _ assms(4,5) xs2 a i n, of key]
  obtain dn' where "ins_for key W xs arr n (arr + 1) = Inr (pre @ dn' @ post)"
    "stable_sorted key ([v] @ rest) dn'" by auto
  then show ?thesis
    using assms(2) seg unfolding insertion_sort_def pre_def[symmetric] post_def[symmetric] seg_def[symmetric]
    by auto
qed

section \<open>Partitioning: proofs\<close>

lemma rd_ok:
  "fst W \<le> p \<Longrightarrow> p \<le> snd W \<Longrightarrow> 0 \<le> p \<Longrightarrow> p < int (length xs) \<Longrightarrow> rd W xs p = Inr (xs ! nat p)"
  by (simp add: rd_def)

lemma wr_ok:
  "fst W \<le> p \<Longrightarrow> p \<le> snd W \<Longrightarrow> 0 \<le> p \<Longrightarrow> p < int (length xs) \<Longrightarrow> wr W xs p v = Inr (xs[nat p := v])"
  by (simp add: wr_def)

lemma SWAP_ok:
  assumes "fst W \<le> p" "p \<le> snd W" "0 \<le> p" "p < int (length xs)"
    and "fst W \<le> q" "q \<le> snd W" "0 \<le> q" "q < int (length xs)"
  shows "SWAP W xs p q = Inr (xs[nat p := xs ! nat q, nat q := xs ! nat p])"
  using assms by (simp add: SWAP_def rd_def wr_def)

lemma nth_swap_nat:
  assumes "P < length xs" "Q < length xs"
  shows "xs[P := xs ! Q, Q := xs ! P] ! R
           = (if R = Q then xs ! P else if R = P then xs ! Q else xs ! R)"
  using assms by (simp add: nth_list_update)

lemma nth_swap_int:
  assumes "0 \<le> p" "p < int (length xs)" "0 \<le> q" "q < int (length xs)" "0 \<le> r"
  shows "xs[nat p := xs ! nat q, nat q := xs ! nat p] ! nat r
           = (if r = q then xs ! nat p else if r = p then xs ! nat q else xs ! nat r)"
proof -
  have e: "(nat r = nat q) = (r = q)" "(nat r = nat p) = (r = p)"
    using assms by auto
  have l: "nat p < length xs" "nat q < length xs" using assms by auto
  show ?thesis
    by (simp only: nth_swap_nat[OF l] e)
qed

lemma mset_swap_int:
  assumes "0 \<le> p" "p < int (length xs)" "0 \<le> q" "q < int (length xs)"
  shows "mset (xs[nat p := xs ! nat q, nat q := xs ! nat p]) = mset xs"
proof -
  have "nat p < length xs" "nat q < length xs" using assms by auto
  then show ?thesis by (simp add: mset_swap)
qed

lemma scan_up_spec:
  assumes "i \<le> c" "c \<le> snd W" "c < int (length xs)" "fst W \<le> i" "0 \<le> i"
    and "key a \<le> key (xs ! nat c)"
  shows "\<exists>i'. scan_up key W xs i a = Inr i' \<and> i < i' \<and> i' - 1 \<le> c
             \<and> key a \<le> key (xs ! nat (i' - 1))
             \<and> (\<forall>p. i \<le> p \<and> p < i' - 1 \<longrightarrow> key (xs ! nat p) < key a)"
  using assms
proof (induction key W xs i a rule: scan_up.induct)
  case (1 key W xs i a)
  have r: "rd W xs i = Inr (xs ! nat i)"
    using "1.prems" by (intro rd_ok) auto
  show ?case
  proof (cases "key (xs ! nat i) < key a")
    case False
    have "scan_up key W xs i a = Inr (i + 1)"
      by (subst scan_up.simps) (simp only: r sum.case False if_False)
    with False show ?thesis using "1.prems" by auto
  next
    case True
    have unf: "scan_up key W xs i a = scan_up key W xs (i + 1) a"
      by (subst scan_up.simps) (simp only: r sum.case True if_True)
    have "i \<noteq> c" using True "1.prems"(6) by auto
    then have ic: "i + 1 \<le> c" using "1.prems"(1) by simp
    have f: "fst W \<le> i + 1" "0 \<le> i + 1" using "1.prems" by auto
    from "1.IH"[OF r True ic "1.prems"(2,3) f "1.prems"(6)]
    obtain i' where i': "scan_up key W xs (i + 1) a = Inr i'" "i + 1 < i'" "i' - 1 \<le> c"
      "key a \<le> key (xs ! nat (i' - 1))"
      "\<forall>p. i + 1 \<le> p \<and> p < i' - 1 \<longrightarrow> key (xs ! nat p) < key a" by blast
    have "\<forall>p. i \<le> p \<and> p < i' - 1 \<longrightarrow> key (xs ! nat p) < key a"
    proof (intro allI impI)
      fix p assume "i \<le> p \<and> p < i' - 1"
      then have "p = i \<or> (i + 1 \<le> p \<and> p < i' - 1)" by auto
      with True i'(5) show "key (xs ! nat p) < key a" by auto
    qed
    with unf i' show ?thesis by auto
  qed
qed

lemma scan_down_spec:
  assumes "c \<le> j - 2" "fst W \<le> c" "0 \<le> c" "j - 2 \<le> snd W" "j - 2 < int (length xs)"
    and "key (xs ! nat c) \<le> key a"
  shows "\<exists>j'. scan_down key W xs j a = Inr j' \<and> j' < j \<and> c \<le> j' - 1
             \<and> key (xs ! nat (j' - 1)) \<le> key a
             \<and> (\<forall>p. j' - 1 < p \<and> p \<le> j - 2 \<longrightarrow> key a < key (xs ! nat p))"
  using assms
proof (induction key W xs j a rule: scan_down.induct)
  case (1 key W xs j a)
  have r: "rd W xs (j - 2) = Inr (xs ! nat (j - 2))"
    using "1.prems" by (intro rd_ok) auto
  show ?case
  proof (cases "key a < key (xs ! nat (j - 2))")
    case False
    have "scan_down key W xs j a = Inr (j - 1)"
      by (subst scan_down.simps) (simp only: r sum.case False if_False)
    moreover have "j - 1 - 1 = j - 2" by simp
    ultimately show ?thesis using False "1.prems" by auto
  next
    case True
    have unf: "scan_down key W xs j a = scan_down key W xs (j - 1) a"
      by (subst scan_down.simps) (simp only: r sum.case True if_True)
    have "c \<noteq> j - 2" using True "1.prems"(6) by auto
    then have ic: "c \<le> j - 1 - 2" using "1.prems"(1) by simp
    have f: "j - 1 - 2 \<le> snd W" "j - 1 - 2 < int (length xs)" using "1.prems" by auto
    from "1.IH"[OF r True ic "1.prems"(2,3) f "1.prems"(6)]
    obtain j' where j': "scan_down key W xs (j - 1) a = Inr j'" "j' < j - 1" "c \<le> j' - 1"
      "key (xs ! nat (j' - 1)) \<le> key a"
      "\<forall>p. j' - 1 < p \<and> p \<le> j - 1 - 2 \<longrightarrow> key a < key (xs ! nat p)" by blast
    have "\<forall>p. j' - 1 < p \<and> p \<le> j - 2 \<longrightarrow> key a < key (xs ! nat p)"
    proof (intro allI impI)
      fix p assume "j' - 1 < p \<and> p \<le> j - 2"
      then have "p = j - 2 \<or> (j' - 1 < p \<and> p \<le> j - 1 - 2)" by auto
      with True j'(5) show "key a < key (xs ! nat p)" by auto
    qed
    with unf j' show ?thesis by auto
  qed
qed

lemma partition_loop_spec:
  fixes l ir :: int
  assumes "fst W \<le> l" "ir - 1 \<le> snd W" "0 \<le> l" "ir \<le> int (length xs)"
    and "l + 1 \<le> i" "i \<le> j" "j \<le> ir" "i \<le> ir - 1" "l + 2 \<le> j"
    and "\<forall>p. l \<le> p \<and> p < i \<longrightarrow> key (xs ! nat p) \<le> key a"
    and "\<forall>p. j - 1 \<le> p \<and> p \<le> ir - 1 \<longrightarrow> key a \<le> key (xs ! nat p)"
  shows "\<exists>xs' i' j'. partition_loop key W xs i j a = Inr (xs', i', j')
           \<and> length xs' = length xs \<and> mset xs' = mset xs
           \<and> (\<forall>p. 0 \<le> p \<and> (p \<le> l \<or> ir - 1 \<le> p) \<longrightarrow> xs' ! nat p = xs ! nat p)
           \<and> l + 1 \<le> j' \<and> j' < i' \<and> i' \<le> ir
           \<and> (\<forall>p. l \<le> p \<and> p \<le> i' - 2 \<longrightarrow> key (xs' ! nat p) \<le> key a)
           \<and> (\<forall>p. j' \<le> p \<and> p \<le> ir - 1 \<longrightarrow> key a \<le> key (xs' ! nat p))
           \<and> key (xs' ! nat (j' - 1)) \<le> key a \<and> i' \<le> j' + 2"
  using assms
proof (induction key W xs i j a rule: partition_loop.induct)
  case (1 key W xs i j a)
  note P3 = \<open>\<forall>p. l \<le> p \<and> p < i \<longrightarrow> key (xs ! nat p) \<le> key a\<close>
  note P4 = \<open>\<forall>p. j - 1 \<le> p \<and> p \<le> ir - 1 \<longrightarrow> key a \<le> key (xs ! nat p)\<close>
  \<comment> \<open>the ascending scan stops at the cell \<open>max i (j - 1)\<close> at the latest\<close>
  define c where "c = max i (j - 1)"
  have c: "i \<le> c" "c \<le> snd W" "c < int (length xs)" "j - 1 \<le> c" "c \<le> ir - 1"
    using "1.prems"(1-9) by (auto simp: c_def)
  have kc: "key a \<le> key (xs ! nat c)" using P4 c by auto
  have fi: "fst W \<le> i" "0 \<le> i" using "1.prems"(1-9) by auto
  from scan_up_spec[OF c(1,2,3) fi kc]
  obtain i' where i': "scan_up key W xs i a = Inr i'" "i < i'" "i' - 1 \<le> c"
    "key a \<le> key (xs ! nat (i' - 1))"
    "\<forall>p. i \<le> p \<and> p < i' - 1 \<longrightarrow> key (xs ! nat p) < key a" by blast
  \<comment> \<open>the descending scan stops at the cell \<open>min (i - 1) (j - 2)\<close> at the latest\<close>
  define d where "d = min (i - 1) (j - 2)"
  have d: "d \<le> j - 2" "fst W \<le> d" "0 \<le> d" "l \<le> d" "d < i"
    using "1.prems"(1-9) by (auto simp: d_def)
  have kd: "key (xs ! nat d) \<le> key a" using P3 d by auto
  have fj: "j - 2 \<le> snd W" "j - 2 < int (length xs)" using "1.prems"(1-9) by auto
  from scan_down_spec[OF d(1,2,3) fj kd]
  obtain j' where j': "scan_down key W xs j a = Inr j'" "j' < j" "d \<le> j' - 1"
    "key (xs ! nat (j' - 1)) \<le> key a"
    "\<forall>p. j' - 1 < p \<and> p \<le> j - 2 \<longrightarrow> key a < key (xs ! nat p)" by blast
  have lo: "\<forall>p. l \<le> p \<and> p \<le> i' - 2 \<longrightarrow> key (xs ! nat p) \<le> key a"
  proof (intro allI impI)
    fix p assume "l \<le> p \<and> p \<le> i' - 2"
    then have "(l \<le> p \<and> p < i) \<or> (i \<le> p \<and> p < i' - 1)" by auto
    with P3 i'(5) show "key (xs ! nat p) \<le> key a" by (auto simp: less_imp_le)
  qed
  have hi: "\<forall>p. j' \<le> p \<and> p \<le> ir - 1 \<longrightarrow> key a \<le> key (xs ! nat p)"
  proof (intro allI impI)
    fix p assume "j' \<le> p \<and> p \<le> ir - 1"
    then have "(j - 1 \<le> p \<and> p \<le> ir - 1) \<or> (j' - 1 < p \<and> p \<le> j - 2)" by auto
    with P4 j'(5) show "key a \<le> key (xs ! nat p)" by (auto simp: less_imp_le)
  qed
  show ?case
  proof (cases "j' < i'")
    case True
    have "partition_loop key W xs i j a = Inr (xs, i', j')"
      by (subst partition_loop.simps) (simp only: i'(1) j'(1) sum.case True if_True)
    moreover have "l + 1 \<le> j'" using j'(3) d(4) by simp
    moreover have "i' \<le> ir" using i'(3) c(5) by simp
    moreover have "i' \<le> j' + 2"
    proof (rule ccontr)
      assume "\<not> i' \<le> j' + 2"
      then have far: "j' + 1 \<le> i' - 2" by simp
      have only: "q = j - 1" if q: "j' \<le> q" "q \<le> i' - 2" for q
      proof -
        have ql: "l \<le> q" using q(1) j'(3) d(4) by simp
        have "key a \<le> key (xs ! nat q)" using hi q i'(3) c(5) by auto
        then have "\<not> (i \<le> q \<and> q < i' - 1)" using i'(5) by force
        then have q1: "q < i" using q(2) by simp
        have "key (xs ! nat q) \<le> key a" using lo q ql by auto
        then have "\<not> (j' - 1 < q \<and> q \<le> j - 2)" using j'(5) by force
        then have "j - 1 \<le> q" using q(1) by simp
        with q1 "1.prems"(6) show ?thesis by simp
      qed
      from only[of j'] only[of "j' + 1"] far show False by simp
    qed
    ultimately show ?thesis using True lo hi j'(4) by auto
  next
    case False
    let ?xs' = "xs[nat (i' - 1) := xs ! nat (j' - 1), nat (j' - 1) := xs ! nat (i' - 1)]"
    have bi: "fst W \<le> i' - 1" "i' - 1 \<le> snd W" "0 \<le> i' - 1" "i' - 1 < int (length xs)"
      using i'(2,3) c fi by auto
    have bj: "fst W \<le> j' - 1" "j' - 1 \<le> snd W" "0 \<le> j' - 1" "j' - 1 < int (length xs)"
      using j'(2,3) d fj by auto
    have sw: "SWAP W xs (i' - 1) (j' - 1) = Inr ?xs'"
      by (rule SWAP_ok[OF bi bj])
    have unf: "partition_loop key W xs i j a = partition_loop key W ?xs' i' j' a"
      by (subst partition_loop.simps) (simp only: i'(1) j'(1) sum.case False if_False sw)
    have nth: "\<And>r. 0 \<le> r \<Longrightarrow> ?xs' ! nat r
           = (if r = j' - 1 then xs ! nat (i' - 1) else if r = i' - 1 then xs ! nat (j' - 1) else xs ! nat r)"
      by (rule nth_swap_int[OF bi(3,4) bj(3,4)])
    have len: "length ?xs' = length xs" by simp
    have ms: "mset ?xs' = mset xs" by (rule mset_swap_int[OF bi(3,4) bj(3,4)])
    have q4: "ir \<le> int (length ?xs')" using "1.prems"(4) by simp
    have q5: "l + 1 \<le> i'" using i'(2) "1.prems"(5) by simp
    have q6: "i' \<le> j'" using False by simp
    have q7: "j' \<le> ir" using j'(2) "1.prems"(7) by simp
    have q8: "i' \<le> ir - 1" using q6 j'(2) "1.prems"(7) by simp
    have q9: "l + 2 \<le> j'" using q6 i'(2) "1.prems"(5) by simp
    have q10: "\<forall>p. l \<le> p \<and> p < i' \<longrightarrow> key (?xs' ! nat p) \<le> key a"
    proof (intro allI impI)
      fix p assume p: "l \<le> p \<and> p < i'"
      then have p0: "0 \<le> p" using "1.prems"(3) by simp
      show "key (?xs' ! nat p) \<le> key a"
      proof (cases "p = i' - 1")
        case True
        then show ?thesis using nth[OF p0] j'(4) i'(4) by auto
      next
        case False
        then have "p \<noteq> j' - 1" "l \<le> p \<and> p \<le> i' - 2" using p q6 by auto
        then show ?thesis using nth[OF p0] False lo by auto
      qed
    qed
    have q11: "\<forall>p. j' - 1 \<le> p \<and> p \<le> ir - 1 \<longrightarrow> key a \<le> key (?xs' ! nat p)"
    proof (intro allI impI)
      fix p assume p: "j' - 1 \<le> p \<and> p \<le> ir - 1"
      then have p0: "0 \<le> p" using bj(3) by simp
      show "key a \<le> key (?xs' ! nat p)"
      proof (cases "p = j' - 1")
        case True
        then show ?thesis using nth[OF p0] i'(4) by auto
      next
        case False
        then have "p \<noteq> i' - 1" "j' \<le> p \<and> p \<le> ir - 1" using p q6 by auto
        then show ?thesis using nth[OF p0] False hi by auto
      qed
    qed
    from "1.IH"[OF i'(1) j'(1) False sw "1.prems"(1,2,3) q4 q5 q6 q7 q8 q9 q10 q11]
    obtain ys i2 j2 where r: "partition_loop key W ?xs' i' j' a = Inr (ys, i2, j2)"
      "length ys = length ?xs'" "mset ys = mset ?xs'"
      "\<forall>p. 0 \<le> p \<and> (p \<le> l \<or> ir - 1 \<le> p) \<longrightarrow> ys ! nat p = ?xs' ! nat p"
      "l + 1 \<le> j2" "j2 < i2" "i2 \<le> ir"
      "\<forall>p. l \<le> p \<and> p \<le> i2 - 2 \<longrightarrow> key (ys ! nat p) \<le> key a"
      "\<forall>p. j2 \<le> p \<and> p \<le> ir - 1 \<longrightarrow> key a \<le> key (ys ! nat p)"
      "key (ys ! nat (j2 - 1)) \<le> key a" "i2 \<le> j2 + 2" by blast
    have out: "\<forall>p. 0 \<le> p \<and> (p \<le> l \<or> ir - 1 \<le> p) \<longrightarrow> ys ! nat p = xs ! nat p"
    proof (intro allI impI)
      fix p assume p: "0 \<le> p \<and> (p \<le> l \<or> ir - 1 \<le> p)"
      then have "p \<noteq> i' - 1" "p \<noteq> j' - 1" using i'(2) "1.prems"(5) q6 q8 j'(2) "1.prems"(7) by auto
      then have "?xs' ! nat p = xs ! nat p" using nth[of p] p by simp
      moreover have "ys ! nat p = ?xs' ! nat p" using r(4) p by auto
      ultimately show "ys ! nat p = xs ! nat p" by simp
    qed
    show ?thesis
      using unf r(1) r(2) len r(3) ms out r(5-11) by auto
  qed
qed

lemma partition_scan_spec:
  fixes l ir :: int
  assumes "fst W \<le> l" "ir - 1 \<le> snd W" "0 \<le> l" "ir \<le> int (length xs)" "2 \<le> ir - l"
    and "key (xs ! nat l) \<le> key (xs ! nat (ir - 1))"
  shows "\<exists>xs' i j. partition_scan key W xs l ir = Inr (xs', i, j)
           \<and> length xs' = length xs \<and> mset xs' = mset xs
           \<and> (\<forall>p. 0 \<le> p \<and> (p < l \<or> ir - 1 \<le> p) \<longrightarrow> xs' ! nat p = xs ! nat p)
           \<and> l + 1 \<le> j \<and> j < i \<and> i \<le> ir
           \<and> (\<forall>p. l \<le> p \<and> p \<le> j - 2 \<longrightarrow> key (xs' ! nat p) \<le> key (xs ! nat l))
           \<and> (\<forall>p. j - 1 \<le> p \<and> p \<le> i - 2 \<longrightarrow> key (xs' ! nat p) = key (xs ! nat l))
           \<and> (\<forall>p. i - 1 \<le> p \<and> p \<le> ir - 1 \<longrightarrow> key (xs ! nat l) \<le> key (xs' ! nat p))
           \<and> i \<le> j + 2"
proof -
  define a where "a = xs ! nat l"
  have ra: "rd W xs l = Inr a"
    unfolding a_def using assms by (intro rd_ok) auto
  have p5: "l + 1 \<le> l + 1" "l + 1 \<le> ir" "ir \<le> ir" "l + 1 \<le> ir - 1" "l + 2 \<le> ir"
    using assms(5) by auto
  have p10: "\<forall>p. l \<le> p \<and> p < l + 1 \<longrightarrow> key (xs ! nat p) \<le> key a"
  proof (intro allI impI)
    fix p assume "l \<le> p \<and> p < l + 1"
    then have "p = l" by simp
    then show "key (xs ! nat p) \<le> key a" by (simp add: a_def)
  qed
  have p11: "\<forall>p. ir - 1 \<le> p \<and> p \<le> ir - 1 \<longrightarrow> key a \<le> key (xs ! nat p)"
  proof (intro allI impI)
    fix p assume "ir - 1 \<le> p \<and> p \<le> ir - 1"
    then have "p = ir - 1" by simp
    then show "key a \<le> key (xs ! nat p)" using assms(6) by (simp add: a_def)
  qed
  from partition_loop_spec[OF assms(1-4) p5 p10 p11]
  obtain xs1 i j where r: "partition_loop key W xs (l + 1) ir a = Inr (xs1, i, j)"
    "length xs1 = length xs" "mset xs1 = mset xs"
    "\<forall>p. 0 \<le> p \<and> (p \<le> l \<or> ir - 1 \<le> p) \<longrightarrow> xs1 ! nat p = xs ! nat p"
    "l + 1 \<le> j" "j < i" "i \<le> ir"
    "\<forall>p. l \<le> p \<and> p \<le> i - 2 \<longrightarrow> key (xs1 ! nat p) \<le> key a"
    "\<forall>p. j \<le> p \<and> p \<le> ir - 1 \<longrightarrow> key a \<le> key (xs1 ! nat p)"
    "key (xs1 ! nat (j - 1)) \<le> key a" "i \<le> j + 2" by blast
  have al: "xs1 ! nat l = a" using r(4) assms(3) by (simp add: a_def)
  have bl: "fst W \<le> l" "l \<le> snd W" "0 \<le> l" "l < int (length xs1)"
    using assms r(2) by auto
  have bj: "fst W \<le> j - 1" "j - 1 \<le> snd W" "0 \<le> j - 1" "j - 1 < int (length xs1)"
    using assms r(2,5,6,7) by auto
  let ?xs2 = "xs1[nat l := xs1 ! nat (j - 1)]"
  let ?xs3 = "xs1[nat l := xs1 ! nat (j - 1), nat (j - 1) := xs1 ! nat l]"
  have rj: "rd W xs1 (j - 1) = Inr (xs1 ! nat (j - 1))" by (rule rd_ok[OF bj])
  have w1: "wr W xs1 l (xs1 ! nat (j - 1)) = Inr ?xs2" by (rule wr_ok[OF bl])
  have "j - 1 < int (length ?xs2)" using bj(4) by simp
  from wr_ok[OF bj(1,2,3) this, of a]
  have w2: "wr W ?xs2 (j - 1) a = Inr ?xs3" by (simp only: al)
  have res: "partition_scan key W xs l ir = Inr (?xs3, i, j)"
    unfolding partition_scan_def
    by (simp only: ra r(1) sum.case prod.case rj w1 w2)
  have nth: "\<And>q. 0 \<le> q \<Longrightarrow> ?xs3 ! nat q
           = (if q = j - 1 then xs1 ! nat l else if q = l then xs1 ! nat (j - 1) else xs1 ! nat q)"
    by (rule nth_swap_int[OF bl(3,4) bj(3,4)])
  have ms: "mset ?xs3 = mset xs"
    using mset_swap_int[OF bl(3,4) bj(3,4)] r(3) by simp
  have len: "length ?xs3 = length xs" using r(2) by simp
  have out: "\<forall>p. 0 \<le> p \<and> (p < l \<or> ir - 1 \<le> p) \<longrightarrow> ?xs3 ! nat p = xs ! nat p"
  proof (intro allI impI)
    fix p assume p: "0 \<le> p \<and> (p < l \<or> ir - 1 \<le> p)"
    then have "p \<noteq> j - 1" "p \<noteq> l" using r(5,6,7) assms(5) by auto
    then have "?xs3 ! nat p = xs1 ! nat p" using nth[of p] p by simp
    moreover have "xs1 ! nat p = xs ! nat p" using r(4) p by auto
    ultimately show "?xs3 ! nat p = xs ! nat p" by simp
  qed
  have lo: "\<forall>p. l \<le> p \<and> p \<le> j - 2 \<longrightarrow> key (?xs3 ! nat p) \<le> key a"
  proof (intro allI impI)
    fix p assume p: "l \<le> p \<and> p \<le> j - 2"
    then have p0: "0 \<le> p" "p \<noteq> j - 1" using assms(3) by auto
    show "key (?xs3 ! nat p) \<le> key a"
    proof (cases "p = l")
      case True
      then show ?thesis using nth[OF p0(1)] p0(2) r(10) by simp
    next
      case False
      then have "?xs3 ! nat p = xs1 ! nat p" using nth[OF p0(1)] p0(2) by simp
      moreover have "l \<le> p \<and> p \<le> i - 2" using p r(6) by auto
      ultimately show ?thesis using r(8) by simp
    qed
  qed
  have mid: "\<forall>p. j - 1 \<le> p \<and> p \<le> i - 2 \<longrightarrow> key (?xs3 ! nat p) = key a"
  proof (intro allI impI)
    fix p assume p: "j - 1 \<le> p \<and> p \<le> i - 2"
    then have p0: "0 \<le> p" using bj(3) by auto
    show "key (?xs3 ! nat p) = key a"
    proof (cases "p = j - 1")
      case True
      then show ?thesis using nth[OF p0] al by simp
    next
      case False
      then have pj: "j \<le> p" "p \<noteq> l" using p r(5) by auto
      then have "?xs3 ! nat p = xs1 ! nat p" using nth[OF p0] False by simp
      moreover have "key (xs1 ! nat p) \<le> key a" using r(8) p pj r(5) by auto
      moreover have "key a \<le> key (xs1 ! nat p)" using r(9) p pj r(7) by auto
      ultimately show ?thesis by simp
    qed
  qed
  have hi: "\<forall>p. i - 1 \<le> p \<and> p \<le> ir - 1 \<longrightarrow> key a \<le> key (?xs3 ! nat p)"
  proof (intro allI impI)
    fix p assume p: "i - 1 \<le> p \<and> p \<le> ir - 1"
    then have p0: "0 \<le> p" "p \<noteq> j - 1" "p \<noteq> l" "j \<le> p" using bj(3) r(5,6) by auto
    then have "?xs3 ! nat p = xs1 ! nat p" using nth[OF p0(1)] by simp
    then show "key a \<le> key (?xs3 ! nat p)" using r(9) p p0(4) by simp
  qed
  show ?thesis
    using res len ms out r(5,6,7) lo mid hi r(11) unfolding a_def by blast
qed

lemma sdiv2_nonneg: "0 \<le> (k::int) \<Longrightarrow> k sdiv 2 = k div 2"
  by (simp add: signed_divide_int_def sgn_if)

lemma SWAP_spec:
  assumes "fst W \<le> p" "p \<le> snd W" "0 \<le> p" "p < int (length xs)"
    and "fst W \<le> q" "q \<le> snd W" "0 \<le> q" "q < int (length xs)"
  shows "\<exists>xs'. SWAP W xs p q = Inr xs' \<and> length xs' = length xs \<and> mset xs' = mset xs
           \<and> (\<forall>r. 0 \<le> r \<and> r \<noteq> p \<and> r \<noteq> q \<longrightarrow> xs' ! nat r = xs ! nat r)
           \<and> xs' ! nat p = xs ! nat q \<and> xs' ! nat q = xs ! nat p"
proof -
  let ?xs' = "xs[nat p := xs ! nat q, nat q := xs ! nat p]"
  have "SWAP W xs p q = Inr ?xs'" by (rule SWAP_ok[OF assms])
  moreover have "length ?xs' = length xs" by simp
  moreover have "mset ?xs' = mset xs" by (rule mset_swap_int[OF assms(3,4,7,8)])
  moreover have "\<forall>r. 0 \<le> r \<and> r \<noteq> p \<and> r \<noteq> q \<longrightarrow> ?xs' ! nat r = xs ! nat r"
    using nth_swap_int[OF assms(3,4,7,8)] by simp
  moreover have "?xs' ! nat p = xs ! nat q"
    using nth_swap_int[OF assms(3,4,7,8) assms(3)] by simp
  moreover have "?xs' ! nat q = xs ! nat p"
    using nth_swap_int[OF assms(3,4,7,8) assms(7)] by simp
  ultimately show ?thesis by blast
qed

lemma SWAP_IF_GREATER_spec:
  assumes "fst W \<le> p" "p \<le> snd W" "0 \<le> p" "p < int (length xs)"
    and "fst W \<le> q" "q \<le> snd W" "0 \<le> q" "q < int (length xs)"
  shows "\<exists>xs'. SWAP_IF_GREATER key W xs p q = Inr xs' \<and> length xs' = length xs
           \<and> mset xs' = mset xs
           \<and> (\<forall>r. 0 \<le> r \<and> r \<noteq> p \<and> r \<noteq> q \<longrightarrow> xs' ! nat r = xs ! nat r)
           \<and> key (xs' ! nat p) \<le> key (xs' ! nat q)
           \<and> ((xs' ! nat p = xs ! nat p \<and> xs' ! nat q = xs ! nat q)
              \<or> (xs' ! nat p = xs ! nat q \<and> xs' ! nat q = xs ! nat p))"
proof (cases "key (xs ! nat p) > key (xs ! nat q)")
  case True
  then have "SWAP_IF_GREATER key W xs p q = SWAP W xs p q"
    unfolding SWAP_IF_GREATER_def
    by (simp only: rd_ok[OF assms(1-4)] rd_ok[OF assms(5-8)] sum.case if_True)
  with SWAP_spec[OF assms] True show ?thesis by auto
next
  case False
  then have "SWAP_IF_GREATER key W xs p q = Inr xs"
    unfolding SWAP_IF_GREATER_def
    by (simp only: rd_ok[OF assms(1-4)] rd_ok[OF assms(5-8)] sum.case if_False)
  with False show ?thesis by auto
qed

lemma median3_spec:
  fixes l ir :: int
  assumes "fst W \<le> l - 1" "ir - 1 \<le> snd W" "1 \<le> l" "ir \<le> int (length xs)" "2 \<le> ir - l"
  shows "\<exists>xs'. median3 key W xs l ir = Inr xs' \<and> length xs' = length xs \<and> mset xs' = mset xs
           \<and> (\<forall>p. 0 \<le> p \<and> p \<noteq> l - 1 \<and> p \<noteq> l \<and> p \<noteq> (l + ir) div 2 - 1 \<and> p \<noteq> ir - 1
                  \<longrightarrow> xs' ! nat p = xs ! nat p)
           \<and> key (xs' ! nat (l - 1)) \<le> key (xs' ! nat l)
           \<and> key (xs' ! nat l) \<le> key (xs' ! nat (ir - 1))
           \<and> {#xs' ! nat (l - 1), xs' ! nat l, xs' ! nat (ir - 1)#}
               = {#xs ! nat (l - 1), xs ! nat ((l + ir) div 2 - 1), xs ! nat (ir - 1)#}"
proof -
  define m where "m = (l + ir) div 2 - 1"
  have sd: "(l + ir) sdiv 2 - 1 = m"
    using assms(3,5) by (simp add: m_def sdiv2_nonneg)
  have m: "l \<le> m" "m \<le> ir - 2" using assms(3,5) unfolding m_def by auto
  have ba: "fst W \<le> l - 1" "l - 1 \<le> snd W" "0 \<le> l - 1" using assms by auto
  have bl: "fst W \<le> l" "l \<le> snd W" "0 \<le> l" using assms by auto
  have bm: "fst W \<le> m" "m \<le> snd W" "0 \<le> m" using assms m by auto
  have bc: "fst W \<le> ir - 1" "ir - 1 \<le> snd W" "0 \<le> ir - 1" using assms by auto
  have la: "\<And>ys. length ys = length xs \<Longrightarrow> l - 1 < int (length ys)"
    and ll: "\<And>ys. length ys = length xs \<Longrightarrow> l < int (length ys)"
    and lm: "\<And>ys. length ys = length xs \<Longrightarrow> m < int (length ys)"
    and lc: "\<And>ys. length ys = length xs \<Longrightarrow> ir - 1 < int (length ys)"
    using assms m by auto
  from SWAP_spec[OF bm lm[OF refl] bl ll[OF refl]]
  obtain xs1 where x1: "SWAP W xs m l = Inr xs1" "length xs1 = length xs" "mset xs1 = mset xs"
    "\<forall>r. 0 \<le> r \<and> r \<noteq> m \<and> r \<noteq> l \<longrightarrow> xs1 ! nat r = xs ! nat r"
    "xs1 ! nat m = xs ! nat l" "xs1 ! nat l = xs ! nat m" by blast
  from SWAP_IF_GREATER_spec[OF ba la[OF x1(2)] bc lc[OF x1(2)], of key]
  obtain xs2 where x2: "SWAP_IF_GREATER key W xs1 (l - 1) (ir - 1) = Inr xs2"
    "length xs2 = length xs1" "mset xs2 = mset xs1"
    "\<forall>r. 0 \<le> r \<and> r \<noteq> l - 1 \<and> r \<noteq> ir - 1 \<longrightarrow> xs2 ! nat r = xs1 ! nat r"
    "key (xs2 ! nat (l - 1)) \<le> key (xs2 ! nat (ir - 1))"
    "(xs2 ! nat (l - 1) = xs1 ! nat (l - 1) \<and> xs2 ! nat (ir - 1) = xs1 ! nat (ir - 1))
      \<or> (xs2 ! nat (l - 1) = xs1 ! nat (ir - 1) \<and> xs2 ! nat (ir - 1) = xs1 ! nat (l - 1))"
    by blast
  have l2: "length xs2 = length xs" using x1(2) x2(2) by simp
  from SWAP_IF_GREATER_spec[OF bl ll[OF l2] bc lc[OF l2], of key]
  obtain xs3 where x3: "SWAP_IF_GREATER key W xs2 l (ir - 1) = Inr xs3"
    "length xs3 = length xs2" "mset xs3 = mset xs2"
    "\<forall>r. 0 \<le> r \<and> r \<noteq> l \<and> r \<noteq> ir - 1 \<longrightarrow> xs3 ! nat r = xs2 ! nat r"
    "key (xs3 ! nat l) \<le> key (xs3 ! nat (ir - 1))"
    "(xs3 ! nat l = xs2 ! nat l \<and> xs3 ! nat (ir - 1) = xs2 ! nat (ir - 1))
      \<or> (xs3 ! nat l = xs2 ! nat (ir - 1) \<and> xs3 ! nat (ir - 1) = xs2 ! nat l)"
    by blast
  have l3: "length xs3 = length xs" using l2 x3(2) by simp
  from SWAP_IF_GREATER_spec[OF ba la[OF l3] bl ll[OF l3], of key]
  obtain xs4 where x4: "SWAP_IF_GREATER key W xs3 (l - 1) l = Inr xs4"
    "length xs4 = length xs3" "mset xs4 = mset xs3"
    "\<forall>r. 0 \<le> r \<and> r \<noteq> l - 1 \<and> r \<noteq> l \<longrightarrow> xs4 ! nat r = xs3 ! nat r"
    "key (xs4 ! nat (l - 1)) \<le> key (xs4 ! nat l)"
    "(xs4 ! nat (l - 1) = xs3 ! nat (l - 1) \<and> xs4 ! nat l = xs3 ! nat l)
      \<or> (xs4 ! nat (l - 1) = xs3 ! nat l \<and> xs4 ! nat l = xs3 ! nat (l - 1))"
    by blast
  have res: "median3 key W xs l ir = Inr xs4"
    unfolding median3_def by (simp only: sd x1(1) x2(1) x3(1) x4(1) sum.case)
  have len: "length xs4 = length xs" using l3 x4(2) by simp
  have ms: "mset xs4 = mset xs" using x1(3) x2(3) x3(3) x4(3) by simp
  have out: "\<forall>p. 0 \<le> p \<and> p \<noteq> l - 1 \<and> p \<noteq> l \<and> p \<noteq> m \<and> p \<noteq> ir - 1
                  \<longrightarrow> xs4 ! nat p = xs ! nat p"
    using x1(4) x2(4) x3(4) x4(4) by auto
  \<comment> \<open>the three cells after the first swap\<close>
  have a1: "xs1 ! nat (l - 1) = xs ! nat (l - 1)" using x1(4) m ba by auto
  have c1: "xs1 ! nat (ir - 1) = xs ! nat (ir - 1)" using x1(4) m bc assms(5) by auto
  have b2: "xs2 ! nat l = xs1 ! nat l" using x2(4) bl assms(5) by auto
  have a3: "xs3 ! nat (l - 1) = xs2 ! nat (l - 1)" using x3(4) ba assms(5) by auto
  have c4: "xs4 ! nat (ir - 1) = xs3 ! nat (ir - 1)" using x4(4) bc assms(5) by auto
  have hi: "key (xs4 ! nat l) \<le> key (xs4 ! nat (ir - 1))"
    using x2(5,6) x3(5,6) x4(5,6) a1 c1 b2 a3 c4 by auto
  have tri: "{#xs4 ! nat (l - 1), xs4 ! nat l, xs4 ! nat (ir - 1)#}
               = {#xs ! nat (l - 1), xs ! nat m, xs ! nat (ir - 1)#}"
    using x2(6) x3(6) x4(6) a1 c1 b2 a3 c4 x1(6) by (auto simp: add_mset_commute)
  show ?thesis
    using res len ms out x4(5) hi tri unfolding m_def by blast
qed

lemma rd_window_mono:
  "rd W xs p = Inr v \<Longrightarrow> fst W' \<le> fst W \<Longrightarrow> snd W \<le> snd W' \<Longrightarrow> rd W' xs p = Inr v"
  by (auto simp: rd_def split: if_splits)

lemma wr_window_mono:
  "wr W xs p v = Inr ys \<Longrightarrow> fst W' \<le> fst W \<Longrightarrow> snd W \<le> snd W' \<Longrightarrow> wr W' xs p v = Inr ys"
  by (auto simp: wr_def split: if_splits)

lemma SWAP_window_mono:
  "SWAP W xs p q = Inr ys \<Longrightarrow> fst W' \<le> fst W \<Longrightarrow> snd W \<le> snd W' \<Longrightarrow> SWAP W' xs p q = Inr ys"
  unfolding SWAP_def
  by (auto simp: rd_def wr_def split: sum.splits if_splits)

lemma scan_up_window_mono:
  "scan_up key W xs i a = Inr i' \<Longrightarrow> fst W' \<le> fst W \<Longrightarrow> snd W \<le> snd W'
     \<Longrightarrow> scan_up key W' xs i a = Inr i'"
proof (induction key W xs i a rule: scan_up.induct)
  case (1 key W xs i a)
  from "1.prems"(1) obtain v where r: "rd W xs i = Inr v"
    by (subst (asm) scan_up.simps) (auto split: sum.splits)
  then have r': "rd W' xs i = Inr v" using "1.prems"(2,3) by (rule rd_window_mono)
  show ?case
  proof (cases "key v < key a")
    case True
    with r "1.prems"(1) have "scan_up key W xs (i + 1) a = Inr i'"
      by (subst (asm) scan_up.simps) simp
    from "1.IH"[OF r True this "1.prems"(2,3)] r' True show ?thesis
      by (subst scan_up.simps) simp
  next
    case False
    with r "1.prems"(1) have "i' = i + 1"
      by (subst (asm) scan_up.simps) simp
    with r' False show ?thesis by (subst scan_up.simps) simp
  qed
qed

lemma scan_down_window_mono:
  "scan_down key W xs j a = Inr j' \<Longrightarrow> fst W' \<le> fst W \<Longrightarrow> snd W \<le> snd W'
     \<Longrightarrow> scan_down key W' xs j a = Inr j'"
proof (induction key W xs j a rule: scan_down.induct)
  case (1 key W xs j a)
  from "1.prems"(1) obtain v where r: "rd W xs (j - 2) = Inr v"
    by (subst (asm) scan_down.simps) (auto split: sum.splits)
  then have r': "rd W' xs (j - 2) = Inr v" using "1.prems"(2,3) by (rule rd_window_mono)
  show ?case
  proof (cases "key a < key v")
    case True
    with r "1.prems"(1) have "scan_down key W xs (j - 1) a = Inr j'"
      by (subst (asm) scan_down.simps) simp
    from "1.IH"[OF r True this "1.prems"(2,3)] r' True show ?thesis
      by (subst scan_down.simps) simp
  next
    case False
    with r "1.prems"(1) have "j' = j - 1"
      by (subst (asm) scan_down.simps) simp
    with r' False show ?thesis by (subst scan_down.simps) simp
  qed
qed

lemma partition_loop_window_mono:
  "partition_loop key W xs i j a = Inr r \<Longrightarrow> fst W' \<le> fst W \<Longrightarrow> snd W \<le> snd W'
     \<Longrightarrow> partition_loop key W' xs i j a = Inr r"
proof (induction key W xs i j a rule: partition_loop.induct)
  case (1 key W xs i j a)
  from "1.prems"(1) obtain i' where u: "scan_up key W xs i a = Inr i'"
    by (subst (asm) partition_loop.simps) (auto split: sum.splits)
  from "1.prems"(1) u obtain j' where d: "scan_down key W xs j a = Inr j'"
    by (subst (asm) partition_loop.simps) (auto split: sum.splits)
  have u': "scan_up key W' xs i a = Inr i'"
    using u "1.prems"(2,3) by (rule scan_up_window_mono)
  have d': "scan_down key W' xs j a = Inr j'"
    using d "1.prems"(2,3) by (rule scan_down_window_mono)
  show ?case
  proof (cases "j' < i'")
    case True
    with u d "1.prems"(1) have "r = (xs, i', j')"
      by (subst (asm) partition_loop.simps) simp
    with u' d' True show ?thesis by (subst partition_loop.simps) simp
  next
    case False
    with u d "1.prems"(1) obtain xs' where s: "SWAP W xs (i' - 1) (j' - 1) = Inr xs'"
      by (subst (asm) partition_loop.simps) (auto split: sum.splits)
    then have s': "SWAP W' xs (i' - 1) (j' - 1) = Inr xs'"
      using "1.prems"(2,3) by (rule SWAP_window_mono)
    from u d False s "1.prems"(1) have "partition_loop key W xs' i' j' a = Inr r"
      by (subst (asm) partition_loop.simps) simp
    from "1.IH"[OF u d False s this "1.prems"(2,3)] u' d' False s' show ?thesis
      by (subst partition_loop.simps) simp
  qed
qed

lemma partition_scan_window_mono:
  assumes "partition_scan key W xs pl pir = Inr r" "fst W' \<le> fst W" "snd W \<le> snd W'"
  shows "partition_scan key W' xs pl pir = Inr r"
proof -
  from assms(1) obtain a where a: "rd W xs pl = Inr a"
    unfolding partition_scan_def by (auto split: sum.splits)
  from assms(1) a obtain xs1 i j where p: "partition_loop key W xs (pl + 1) pir a = Inr (xs1, i, j)"
    unfolding partition_scan_def by (auto split: sum.splits)
  from assms(1) a p obtain v where v: "rd W xs1 (j - 1) = Inr v"
    unfolding partition_scan_def by (auto split: sum.splits)
  from assms(1) a p v obtain xs2 where w1: "wr W xs1 pl v = Inr xs2"
    unfolding partition_scan_def by (auto split: sum.splits)
  from assms(1) a p v w1 obtain xs3 where w2: "wr W xs2 (j - 1) a = Inr xs3"
    unfolding partition_scan_def by (auto split: sum.splits)
  from assms(1) a p v w1 w2 have r: "r = (xs3, i, j)"
    unfolding partition_scan_def by simp
  note m = assms(2,3)
  show ?thesis
    unfolding partition_scan_def
    by (simp add: rd_window_mono[OF a m] partition_loop_window_mono[OF p m]
        rd_window_mono[OF v m] wr_window_mono[OF w1 m] wr_window_mono[OF w2 m] r)
qed

section \<open>Permutations within a subrange and cuts\<close>

lemma permuted_in_refl: "permuted_in lo hi xs xs"
  by (simp add: permuted_in_def)

lemma permuted_in_trans:
  "permuted_in lo hi xs ys \<Longrightarrow> permuted_in lo hi ys zs \<Longrightarrow> permuted_in lo hi xs zs"
  by (simp add: permuted_in_def)

lemma permuted_in_mono:
  "permuted_in lo hi xs ys \<Longrightarrow> lo' \<le> lo \<Longrightarrow> hi \<le> hi' \<Longrightarrow> permuted_in lo' hi' xs ys"
  by (auto simp: permuted_in_def)

lemma seg_mset_nat:
  assumes len: "length ys = length xs" and ms: "mset ys = mset xs"
    and out: "\<And>k. k < length xs \<Longrightarrow> k < a \<or> b \<le> k \<Longrightarrow> ys ! k = xs ! k"
    and ab: "a \<le> b" "b \<le> length xs"
  shows "mset (take (b - a) (drop a ys)) = mset (take (b - a) (drop a xs))"
proof -
  have t: "take a ys = take a xs"
    using len ab out by (intro nth_equalityI) auto
  have d: "drop b ys = drop b xs"
    using len ab out by (intro nth_equalityI) auto
  have split: "\<And>zs::'a list. zs = take a zs @ take (b - a) (drop a zs) @ drop b zs"
    using ab by (metis append_take_drop_id drop_drop add.commute le_add_diff_inverse)
  have "mset ys = mset (take a ys) + mset (take (b - a) (drop a ys)) + mset (drop b ys)"
    by (subst split[of ys]) simp
  moreover have "mset xs = mset (take a xs) + mset (take (b - a) (drop a xs)) + mset (drop b xs)"
    by (subst split[of xs]) simp
  ultimately show ?thesis using ms t d by simp
qed

lemma permuted_in_values:
  assumes pm: "permuted_in lo hi xs ys" and b: "0 \<le> lo" "hi < int (length xs)"
    and q: "lo \<le> q" "q \<le> hi"
  shows "\<exists>q'. lo \<le> q' \<and> q' \<le> hi \<and> ys ! nat q = xs ! nat q'"
proof -
  define a where "a = nat lo"
  define c where "c = nat (hi + 1)"
  have ac: "a \<le> c" "c \<le> length xs" using b q by (auto simp: a_def c_def)
  have len: "length ys = length xs" and ms: "mset ys = mset xs"
    using pm by (auto simp: permuted_in_def)
  have out: "ys ! k = xs ! k" if "k < length xs" "k < a \<or> c \<le> k" for k
  proof -
    have "0 \<le> int k \<and> int k < int (length xs) \<and> (int k < lo \<or> hi < int k)"
      using that b by (auto simp: a_def c_def)
    with pm have "ys ! nat (int k) = xs ! nat (int k)" unfolding permuted_in_def by blast
    then show ?thesis by simp
  qed
  have m: "mset (take (c - a) (drop a ys)) = mset (take (c - a) (drop a xs))"
    by (rule seg_mset_nat[OF len ms out ac])
  have qk: "nat q - a < c - a" "a \<le> nat q" "nat q < length ys"
    using q b len by (auto simp: a_def c_def)
  have "ys ! nat q = take (c - a) (drop a ys) ! (nat q - a)"
    using qk by simp
  moreover have "nat q - a < length (take (c - a) (drop a ys))"
    using qk ac len by simp
  ultimately have "ys ! nat q \<in> set (take (c - a) (drop a ys))"
    by (metis nth_mem)
  then have "ys ! nat q \<in> set (take (c - a) (drop a xs))"
    using m by (metis set_mset_mset)
  then obtain k where k: "k < length (take (c - a) (drop a xs))"
    "take (c - a) (drop a xs) ! k = ys ! nat q"
    by (auto simp: in_set_conv_nth)
  then have k': "k < c - a" "xs ! (a + k) = ys ! nat q" using ac by auto
  have "lo \<le> int (a + k)" "int (a + k) \<le> hi" using k'(1) b q by (auto simp: a_def c_def)
  moreover have "ys ! nat q = xs ! nat (int (a + k))" using k'(2) by (simp only: nat_int)
  ultimately show ?thesis by blast
qed

lemma cut_outside:
  assumes pm: "permuted_in lo hi xs ys" and b: "0 \<le> lo" "hi < int n" "n \<le> length xs"
    and ob: "b \<le> lo \<or> hi + 1 \<le> b"
    and c: "cut key n xs b"
  shows "cut key n ys b"
  unfolding cut_def
proof (intro allI impI)
  fix p q assume pq: "0 \<le> p \<and> p < b \<and> b \<le> q \<and> q < int n"
  have hl: "hi < int (length xs)" using b by simp
  have "\<exists>p'. 0 \<le> p' \<and> p' < b \<and> ys ! nat p = xs ! nat p'"
  proof (cases "lo \<le> p \<and> p \<le> hi")
    case True
    from permuted_in_values[OF pm b(1) hl] True
    obtain p' where "lo \<le> p'" "p' \<le> hi" "ys ! nat p = xs ! nat p'" by blast
    moreover have "hi + 1 \<le> b" using True pq ob by auto
    ultimately show ?thesis using b(1) by (intro exI[of _ p']) auto
  next
    case False
    then have "ys ! nat p = xs ! nat p" using pm pq b(3) unfolding permuted_in_def by auto
    then show ?thesis using pq by blast
  qed
  then obtain p' where p': "0 \<le> p'" "p' < b" "ys ! nat p = xs ! nat p'" by blast
  have "\<exists>q'. b \<le> q' \<and> q' < int n \<and> ys ! nat q = xs ! nat q'"
  proof (cases "lo \<le> q \<and> q \<le> hi")
    case True
    from permuted_in_values[OF pm b(1) hl] True
    obtain q' where "lo \<le> q'" "q' \<le> hi" "ys ! nat q = xs ! nat q'" by blast
    moreover have "b \<le> lo" using True pq ob by auto
    ultimately show ?thesis using b(2) by (intro exI[of _ q']) auto
  next
    case False
    then have "ys ! nat q = xs ! nat q" using pm pq b(3) unfolding permuted_in_def by auto
    then show ?thesis using pq by blast
  qed
  then obtain q' where q': "b \<le> q'" "q' < int n" "ys ! nat q = xs ! nat q'" by blast
  from c p' q' show "key (ys ! nat p) \<le> key (ys ! nat q)"
    unfolding cut_def by auto
qed

lemma cut_inside:
  assumes pm: "permuted_in lo hi xs ys" and b: "0 \<le> lo" "hi < int n" "n \<le> length xs"
    and c1: "cut key n xs lo" and c2: "cut key n xs (hi + 1)"
    and ib: "lo \<le> b" "b \<le> hi + 1"
    and loc: "\<forall>p q. lo \<le> p \<and> p < b \<and> b \<le> q \<and> q \<le> hi \<longrightarrow> key (ys ! nat p) \<le> key (ys ! nat q)"
  shows "cut key n ys b"
  unfolding cut_def
proof (intro allI impI)
  fix p q assume pq: "0 \<le> p \<and> p < b \<and> b \<le> q \<and> q < int n"
  have hl: "hi < int (length xs)" using b by simp
  have d1: "cut key n ys lo" by (rule cut_outside[OF pm b _ c1]) simp
  have d2: "cut key n ys (hi + 1)" by (rule cut_outside[OF pm b _ c2]) simp
  show "key (ys ! nat p) \<le> key (ys ! nat q)"
  proof (cases "p < lo")
    case True
    then show ?thesis using d1 pq ib unfolding cut_def by auto
  next
    case pl: False
    show ?thesis
    proof (cases "hi < q")
      case True
      then show ?thesis using d2 pq ib unfolding cut_def by auto
    next
      case False
      with pl pq loc show ?thesis by auto
    qed
  qed
qed

section \<open>The partition stack: proofs\<close>

lemma on_stack_push:
  assumes sp: "0 \<le> stackp s" "even (stackp s)"
    and st: "stack s' = (stack s)(stackp s + 2 \<mapsto> b, stackp s + 2 - 1 \<mapsto> a)"
    and sp': "stackp s' = stackp s + 2"
  shows "on_stack s' k pl pir
           \<longleftrightarrow> on_stack s k pl pir \<or> (2 * int k = stackp s \<and> pl = a \<and> pir = b)"
proof (cases "2 * int k + 2 \<le> stackp s")
  case True
  then have "stack s' (2 * int k + 1) = stack s (2 * int k + 1)"
    "stack s' (2 * int k + 2) = stack s (2 * int k + 2)"
    by (simp_all add: st)
  with True sp' show ?thesis by (auto simp: on_stack_def)
next
  case False
  show ?thesis
  proof (cases "2 * int k = stackp s")
    case eq: True
    then have "stack s' (2 * int k + 1) = Some a" "stack s' (2 * int k + 2) = Some b"
      by (simp_all add: st)
    with eq False sp' show ?thesis by (auto simp: on_stack_def)
  next
    case ne: False
    from False ne sp(2) have "\<not> 2 * int k + 2 \<le> stackp s + 2"
      by presburger
    with False ne sp' show ?thesis by (auto simp: on_stack_def)
  qed
qed

lemma on_stack_pop:
  assumes st: "stack s' = stack s" and sp': "stackp s' = stackp s - 2"
  shows "on_stack s' k pl pir \<longleftrightarrow> on_stack s k pl pir \<and> 2 * int k + 4 \<le> stackp s"
  by (auto simp: on_stack_def st sp')

lemma on_stack_fun:
  "on_stack s k pl pir \<Longrightarrow> on_stack s k pl' pir' \<Longrightarrow> pl' = pl \<and> pir' = pir"
  by (simp add: on_stack_def)

lemma stack_weight_cong:
  assumes "\<And>m. 1 \<le> m \<Longrightarrow> m \<le> 2 * int k \<Longrightarrow> st' m = st m"
  shows "stack_weight st' k = stack_weight st k"
  using assms by (induction k) simp_all

section \<open>The main loop: invariant and termination\<close>

lemma sort_invD:
  assumes "sort_inv key n xs s"
  shows "n \<le> length xs" "permuted_in 0 (int n - 1) xs (mem s)"
    "1 \<le> l s" "l s \<le> ir s + 1" "ir s \<le> int n"
    "0 \<le> stackp s" "even (stackp s)" "dom (stack s) \<subseteq> {1..NSTACK - 2}"
    "\<And>k. 2 * int k + 2 \<le> stackp s \<Longrightarrow> \<exists>pl pir. on_stack s k pl pir"
    "\<And>k pl pir. on_stack s k pl pir \<Longrightarrow>
        1 \<le> pl \<and> pl < pir \<and> pir \<le> int n \<and> (pir - pl + 1) * 2 ^ k \<le> int n \<and> 11 * 2 ^ k \<le> int n"
    "\<And>k pl pir. on_stack s k pl pir \<Longrightarrow> pir < l s \<or> ir s < pl"
    "\<And>k pl pir k' pl' pir'. on_stack s k pl pir \<Longrightarrow> on_stack s k' pl' pir' \<Longrightarrow> k \<noteq> k'
        \<Longrightarrow> pir < pl' \<or> pir' < pl"
    "(ir s - l s + 1) * 2 ^ nat (stackp s div 2) \<le> int n"
    "\<And>b. 0 \<le> b \<Longrightarrow> b \<le> int n \<Longrightarrow> \<not> inside_pending s b \<Longrightarrow> cut key n (mem s) b"
    "length (mem s) = length xs"
  using assms
  unfolding sort_inv_def ranges_ok_def stack_ok_def disjoint_ok_def depth_ok_def cuts_ok_def
    permuted_in_def
  by blast+

lemma sort_invI:
  assumes "n \<le> length xs" "permuted_in 0 (int n - 1) xs (mem s)"
    "1 \<le> l s" "l s \<le> ir s + 1" "ir s \<le> int n"
    "0 \<le> stackp s" "even (stackp s)" "dom (stack s) \<subseteq> {1..NSTACK - 2}"
    "\<And>k. 2 * int k + 2 \<le> stackp s \<Longrightarrow> \<exists>pl pir. on_stack s k pl pir"
    "\<And>k pl pir. on_stack s k pl pir \<Longrightarrow>
        1 \<le> pl \<and> pl < pir \<and> pir \<le> int n \<and> (pir - pl + 1) * 2 ^ k \<le> int n \<and> 11 * 2 ^ k \<le> int n"
    "\<And>k pl pir. on_stack s k pl pir \<Longrightarrow> pir < l s \<or> ir s < pl"
    "\<And>k pl pir k' pl' pir'. on_stack s k pl pir \<Longrightarrow> on_stack s k' pl' pir' \<Longrightarrow> k \<noteq> k'
        \<Longrightarrow> pir < pl' \<or> pir' < pl"
    "(ir s - l s + 1) * 2 ^ nat (stackp s div 2) \<le> int n"
    "\<And>b. 0 \<le> b \<Longrightarrow> b \<le> int n \<Longrightarrow> \<not> inside_pending s b \<Longrightarrow> cut key n (mem s) b"
  shows "sort_inv key n xs s"
  unfolding sort_inv_def ranges_ok_def stack_ok_def disjoint_ok_def depth_ok_def cuts_ok_def
  using assms by blast

lemma push_step:
  fixes s s' :: "'a sort_state"
  assumes inv: "sort_inv key n xs s"
    and big: "11 \<le> ir s - l s + 1"
    and room: "stackp s + 2 < NSTACK"
    and pm: "permuted_in (l s - 1) (ir s - 1) (mem s) (mem s')"
    and g1: "l s \<le> l s'" "l s' \<le> ir s'" "ir s' \<le> ir s" "l s \<le> pl" "pl \<le> pir" "pir \<le> ir s"
      "ir s' < pl \<or> pir < l s'"
    and g2: "ir s' - l s' + 1 \<le> pir - pl + 1" "(ir s' - l s' + 1) + (pir - pl + 1) \<le> ir s - l s"
      "ir s - l s - 1 \<le> (ir s' - l s' + 1) + (pir - pl + 1)"
    and g3: "\<And>b. l s \<le> b \<Longrightarrow> b < ir s \<Longrightarrow> \<not> (l s' \<le> b \<and> b < ir s') \<Longrightarrow> \<not> (pl \<le> b \<and> b < pir)
               \<Longrightarrow> cut key n (mem s') b"
    and st: "stack s' = (stack s)(stackp s + 2 \<mapsto> pir, stackp s + 2 - 1 \<mapsto> pl)"
      "stackp s' = stackp s + 2"
  shows "sort_inv key n xs s' \<and> weight s' < weight s"
proof -
  note i = sort_invD[OF inv]
  define K where "K = nat (stackp s div 2)"
  have K: "stackp s = 2 * int K" using i(6,7) by (auto simp: K_def)
  have K': "nat (stackp s' div 2) = Suc K" using K st(2) by simp
  note os = on_stack_push[OF i(6,7) st]
  have new: "on_stack s' K pl pir" using os[of K pl pir] K by simp
  have dpK: "(ir s - l s + 1) * 2 ^ K \<le> int n" using i(13) by (simp add: K_def)
  have p2: "(0::int) \<le> 2 ^ K" by simp
  have G2: "permuted_in 0 (int n - 1) xs (mem s')"
  proof -
    have "permuted_in 0 (int n - 1) (mem s) (mem s')"
      using pm by (rule permuted_in_mono) (use i(3,5) in auto)
    with i(2) show ?thesis by (rule permuted_in_trans)
  qed
  have G8: "dom (stack s') \<subseteq> {1..NSTACK - 2}"
  proof -
    have "stackp s + 2 \<le> NSTACK - 2" using room i(7) unfolding NSTACK_def by presburger
    then show ?thesis using i(6,8) by (auto simp: st(1))
  qed
  have G9: "\<exists>a b. on_stack s' k a b" if "2 * int k + 2 \<le> stackp s'" for k
  proof (cases "2 * int k + 2 \<le> stackp s")
    case True
    from i(9)[OF this] show ?thesis using os by blast
  next
    case False
    with that st(2) K have "k = K" by auto
    with new show ?thesis by blast
  qed
  have G10: "1 \<le> a \<and> a < b \<and> b \<le> int n \<and> (b - a + 1) * 2 ^ k \<le> int n \<and> 11 * 2 ^ k \<le> int n"
    if "on_stack s' k a b" for k a b
  proof (cases "on_stack s k a b")
    case True
    then show ?thesis by (rule i(10))
  next
    case False
    with that os have e: "k = K" "a = pl" "b = pir" using K by auto
    have "(pir - pl + 1) * 2 ^ K \<le> (ir s - l s + 1) * 2 ^ K"
      using g1 by (intro mult_right_mono) auto
    then have A: "(pir - pl + 1) * 2 ^ K \<le> int n" using dpK by (rule order_trans)
    have "11 * 2 ^ K \<le> (ir s - l s + 1) * (2::int) ^ K"
      using big by (intro mult_right_mono) auto
    then have B: "11 * 2 ^ K \<le> int n" using dpK by (rule order_trans)
    have "1 \<le> pl" "pl < pir" "pir \<le> int n" using g1 g2 big i(3,5) by auto
    with A B show ?thesis unfolding e by blast
  qed
  have G11: "b < l s' \<or> ir s' < a" if "on_stack s' k a b" for k a b
  proof (cases "on_stack s k a b")
    case True
    from i(11)[OF this] show ?thesis using g1 by auto
  next
    case False
    with that os have "a = pl" "b = pir" by auto
    with g1(7) show ?thesis by auto
  qed
  have G12: "b < a' \<or> b' < a"
    if t: "on_stack s' k a b" "on_stack s' k' a' b'" "k \<noteq> k'" for k a b k' a' b'
  proof -
    consider "on_stack s k a b" "on_stack s k' a' b'"
      | "on_stack s k a b" "a' = pl" "b' = pir"
      | "a = pl" "b = pir" "on_stack s k' a' b'"
      using t os K by (metis of_nat_eq_iff mult_left_cancel zero_neq_numeral)
    then show ?thesis
    proof cases
      case 1
      then show ?thesis using i(12) t(3) by blast
    next
      case 2
      from i(11)[OF 2(1)] show ?thesis using 2 g1 by auto
    next
      case 3
      from i(11)[OF 3(3)] show ?thesis using 3 g1 by auto
    qed
  qed
  have G13: "(ir s' - l s' + 1) * 2 ^ nat (stackp s' div 2) \<le> int n"
  proof -
    have "(ir s' - l s' + 1) * 2 \<le> ir s - l s + 1" using g2 by simp
    then have "((ir s' - l s' + 1) * 2) * 2 ^ K \<le> (ir s - l s + 1) * 2 ^ K"
      by (intro mult_right_mono) auto
    then have "((ir s' - l s' + 1) * 2) * 2 ^ K \<le> int n" using dpK by (rule order_trans)
    moreover have "(ir s' - l s' + 1) * 2 ^ Suc K = ((ir s' - l s' + 1) * 2) * 2 ^ K"
      by simp
    ultimately show ?thesis unfolding K' by (simp only:)
  qed
  have lenm: "n \<le> length (mem s)" using i(1,15) by simp
  have G14: "cut key n (mem s') b" if b: "0 \<le> b" "b \<le> int n" "\<not> inside_pending s' b" for b
  proof (cases "l s \<le> b \<and> b < ir s")
    case True
    have "\<not> (l s' \<le> b \<and> b < ir s')" using b(3) by (auto simp: inside_pending_def)
    moreover have "\<not> (pl \<le> b \<and> b < pir)" using b(3) new by (auto simp: inside_pending_def)
    ultimately show ?thesis using True g3 by blast
  next
    case False
    have "\<not> inside_pending s b"
      using b(3) False os unfolding inside_pending_def by blast
    from i(14)[OF b(1,2) this] have c: "cut key n (mem s) b" .
    show ?thesis
      by (rule cut_outside[OF pm _ _ lenm _ c]) (use False i(3,5) in auto)
  qed
  have inv': "sort_inv key n xs s'"
    by (rule sort_invI[OF i(1) G2 _ _ _ _ _ G8 G9 G10 G11 G12 G13 G14])
       (use g1 i(3,5,6,7) st(2) in auto)
  have sw: "stack_weight (stack s') K = stack_weight (stack s) K"
    by (rule stack_weight_cong) (use K in \<open>auto simp: st(1)\<close>)
  have "the (stack s' (2 * int K + 2)) = pir" "the (stack s' (2 * int K + 1)) = pl"
    using new by (auto simp: on_stack_def)
  then have "weight s' = stack_weight (stack s) K + (2 * nat (pir - pl + 1) + 1)
      + (2 * nat (ir s' - l s' + 1) + 1)"
    unfolding weight_def K' by (simp add: sw)
  moreover have "weight s = stack_weight (stack s) K + (2 * nat (ir s - l s + 1) + 1)"
    unfolding weight_def K_def by simp
  moreover have "nat (pir - pl + 1) + nat (ir s' - l s' + 1) < nat (ir s - l s + 1)"
    using g1 g2 by auto
  ultimately have "weight s' < weight s" by simp
  with inv' show ?thesis by simp
qed

lemma permuted_prefix:
  assumes pm: "permuted_in 0 (int n - 1) xs ys" and n: "n \<le> length xs"
  shows "mset (take n ys) = mset (take n xs)" "drop n ys = drop n xs" "length ys = length xs"
proof -
  show len: "length ys = length xs" using pm by (simp add: permuted_in_def)
  show d: "drop n ys = drop n xs"
  proof (rule nth_equalityI)
    show "length (drop n ys) = length (drop n xs)" using len by simp
  next
    fix k assume "k < length (drop n ys)"
    then have k: "n + k < length xs" using len by simp
    then have "0 \<le> int (n + k) \<and> int (n + k) < int (length xs)
        \<and> (int (n + k) < 0 \<or> int n - 1 < int (n + k))" by auto
    with pm have "ys ! nat (int (n + k)) = xs ! nat (int (n + k))"
      unfolding permuted_in_def by blast
    then show "drop n ys ! k = drop n xs ! k" using k len by (simp only: nat_int nth_drop n)
  qed
  have "mset ys = mset (take n ys) + mset (drop n ys)"
    by (metis append_take_drop_id mset_append)
  moreover have "mset xs = mset (take n xs) + mset (drop n xs)"
    by (metis append_take_drop_id mset_append)
  moreover have "mset ys = mset xs" using pm by (simp add: permuted_in_def)
  ultimately show "mset (take n ys) = mset (take n xs)" using d by simp
qed

lemma all_cuts_sorted:
  assumes c: "\<And>b. 0 \<le> b \<Longrightarrow> b \<le> int n \<Longrightarrow> cut key n ys b" and n: "n \<le> length ys"
  shows "sorted (map key (take n ys))"
proof -
  have "key (ys ! i) \<le> key (ys ! j)" if "i \<le> j" "j < n" for i j
  proof (cases "i = j")
    case True
    then show ?thesis by simp
  next
    case False
    have "cut key n ys (int j)" by (rule c) (use that in auto)
    moreover have "0 \<le> int i \<and> int i < int j \<and> int j \<le> int j \<and> int j < int n"
      using that False by auto
    ultimately have "key (ys ! nat (int i)) \<le> key (ys ! nat (int j))"
      unfolding cut_def by blast
    then show ?thesis by simp
  qed
  then show ?thesis using n by (auto simp: sorted_iff_nth_mono)
qed

lemma insertion_sort_index:
  fixes pl pir :: int
  assumes "1 \<le> pl" "pl \<le> pir + 1" "pir \<le> int (length xs)"
    and "fst W \<le> pl - 1" "pir - 1 \<le> snd W"
  shows "\<exists>xs'. insertion_sort key W (pir - pl + 1) (pl - 1) xs = Inr xs'
           \<and> permuted_in (pl - 1) (pir - 1) xs xs'
           \<and> (\<forall>p q. pl - 1 \<le> p \<and> p \<le> q \<and> q \<le> pir - 1
                  \<longrightarrow> key (xs' ! nat p) \<le> key (xs' ! nat q))"
proof -
  define a where "a = nat (pl - 1)"
  define m where "m = nat (pir - pl + 1)"
  have h: "0 \<le> pl - 1" "0 \<le> pir - pl + 1" "pl - 1 + (pir - pl + 1) \<le> int (length xs)"
    "pl - 1 + (pir - pl + 1) - 1 \<le> snd W"
    using assms by auto
  have am: "nat (pl - 1 + (pir - pl + 1)) = a + m" "a + m \<le> length xs"
    using assms by (auto simp: a_def m_def)
  from insertion_sort_spec[OF h(1,2,3) assms(4) h(4), of key]
  obtain seg' where r: "insertion_sort key W (pir - pl + 1) (pl - 1) xs
        = Inr (take a xs @ seg' @ drop (a + m) xs)"
    and ss: "stable_sorted key (take m (drop a xs)) seg'"
    unfolding a_def[symmetric] m_def[symmetric] am(1) by blast
  let ?xs' = "take a xs @ seg' @ drop (a + m) xs"
  have ms: "mset seg' = mset (take m (drop a xs))" and so: "sorted (map key seg')"
    using ss by (auto simp: stable_sorted_def)
  have "size (mset seg') = size (mset (take m (drop a xs)))" using ms by simp
  then have ls: "length seg' = m" using am(2) by simp
  have la: "length (take a xs) = a" using am(2) by simp
  have len: "length ?xs' = length xs" using ls la am(2) by simp
  have "xs = take a xs @ take m (drop a xs) @ drop (a + m) xs"
    by (metis append_take_drop_id drop_drop add.commute)
  then have "mset xs = mset (take a xs) + mset (take m (drop a xs)) + mset (drop (a + m) xs)"
    by (metis mset_append add.assoc)
  then have mse: "mset ?xs' = mset xs" using ms by simp
  have nth_lo: "?xs' ! k = xs ! k" if "k < a" for k
    using that la by (simp add: nth_append)
  have nth_mid: "?xs' ! k = seg' ! (k - a)" if "a \<le> k" "k < a + m" for k
  proof -
    have "\<not> k < length (take a xs)" "k - length (take a xs) < length seg'"
      using that la ls by auto
    then show ?thesis using la by (simp only: nth_append if_False if_True)
  qed
  have nth_hi: "?xs' ! k = xs ! k" if "a + m \<le> k" "k < length xs" for k
  proof -
    have c: "\<not> k < length (take a xs)" "\<not> k - length (take a xs) < length seg'"
      using that la ls by auto
    have "?xs' ! k = drop (a + m) xs ! (k - a - m)"
      using c la ls by (simp only: nth_append if_False)
    also have "\<dots> = xs ! (a + m + (k - a - m))"
      using that am(2) by (intro nth_drop) auto
    also have "a + m + (k - a - m) = k" using that by simp
    finally show ?thesis .
  qed
  have out: "\<forall>p. 0 \<le> p \<and> p < int (length xs) \<and> (p < pl - 1 \<or> pir - 1 < p)
                \<longrightarrow> ?xs' ! nat p = xs ! nat p"
  proof (intro allI impI)
    fix p assume p: "0 \<le> p \<and> p < int (length xs) \<and> (p < pl - 1 \<or> pir - 1 < p)"
    then have "nat p < a \<or> (a + m \<le> nat p \<and> nat p < length xs)"
      using assms by (auto simp: a_def m_def)
    then show "?xs' ! nat p = xs ! nat p" using nth_lo nth_hi by blast
  qed
  have srt: "\<forall>p q. pl - 1 \<le> p \<and> p \<le> q \<and> q \<le> pir - 1
                  \<longrightarrow> key (?xs' ! nat p) \<le> key (?xs' ! nat q)"
  proof (intro allI impI)
    fix p q assume pq: "pl - 1 \<le> p \<and> p \<le> q \<and> q \<le> pir - 1"
    then have b: "a \<le> nat p" "nat p \<le> nat q" "nat q < a + m"
      using assms by (auto simp: a_def m_def)
    then have "?xs' ! nat p = seg' ! (nat p - a)" "?xs' ! nat q = seg' ! (nat q - a)"
      using nth_mid by auto
    moreover have "nat p - a \<le> nat q - a" "nat q - a < length seg'" using b ls by auto
    ultimately show "key (?xs' ! nat p) \<le> key (?xs' ! nat q)"
      using so by (auto simp: sorted_iff_nth_mono)
  qed
  have "permuted_in (pl - 1) (pir - 1) xs ?xs'"
    unfolding permuted_in_def using len mse out by blast
  with r srt show ?thesis by blast
qed

lemma sorted_segment_cuts:
  fixes s :: "'a sort_state"
  assumes inv: "sort_inv key n xs s"
    and pm: "permuted_in (l s - 1) (ir s - 1) (mem s) ys"
    and srt: "\<forall>p q. l s - 1 \<le> p \<and> p \<le> q \<and> q \<le> ir s - 1 \<longrightarrow> key (ys ! nat p) \<le> key (ys ! nat q)"
    and b: "0 \<le> b" "b \<le> int n" "\<not> (\<exists>k pl pir. on_stack s k pl pir \<and> pl \<le> b \<and> b < pir)"
  shows "cut key n ys b"
proof -
  note i = sort_invD[OF inv]
  have lenm: "n \<le> length (mem s)" using i(1,15) by simp
  have lo: "0 \<le> l s - 1" and hi: "ir s - 1 < int n" using i(3,5) by auto
  show ?thesis
  proof (cases "l s \<le> b \<and> b < ir s")
    case False
    then have "\<not> inside_pending s b" using b(3) by (simp add: inside_pending_def)
    from i(14)[OF b(1,2) this] have c: "cut key n (mem s) b" .
    show ?thesis
      by (rule cut_outside[OF pm lo hi lenm _ c]) (use False in auto)
  next
    case True
    have "\<not> inside_pending s (l s - 1)"
    proof
      assume "inside_pending s (l s - 1)"
      then obtain k pl pir where "on_stack s k pl pir" "pl \<le> l s - 1" "l s - 1 < pir"
        by (auto simp: inside_pending_def)
      with i(11)[of k pl pir] i(4) show False by auto
    qed
    then have c1: "cut key n (mem s) (l s - 1)" using i(14) lo i(3,4,5) by auto
    have "\<not> inside_pending s (ir s)"
    proof
      assume "inside_pending s (ir s)"
      then obtain k pl pir where "on_stack s k pl pir" "pl \<le> ir s" "ir s < pir"
        by (auto simp: inside_pending_def)
      with i(11)[of k pl pir] i(4) show False by auto
    qed
    then have "cut key n (mem s) (ir s)" using i(14) i(3,4,5) by auto
    then have c2: "cut key n (mem s) (ir s - 1 + 1)" by simp
    have loc: "\<forall>p q. l s - 1 \<le> p \<and> p < b \<and> b \<le> q \<and> q \<le> ir s - 1
        \<longrightarrow> key (ys ! nat p) \<le> key (ys ! nat q)"
      using srt by auto
    show ?thesis
      by (rule cut_inside[OF pm lo hi lenm c1 c2 _ _ loc]) (use True in auto)
  qed
qed

lemma sort_inv_init:
  assumes "n \<le> length xs"
  shows "sort_inv key n xs (sort_init n xs)"
proof (rule sort_invI)
  show "permuted_in 0 (int n - 1) xs (mem (sort_init n xs))"
    by (simp add: sort_init_def permuted_in_refl)
  show "(ir (sort_init n xs) - l (sort_init n xs) + 1) * 2 ^ nat (stackp (sort_init n xs) div 2) \<le> int n"
    by (simp add: sort_init_def)
next
  fix b assume "0 \<le> b" "b \<le> int n" "\<not> inside_pending (sort_init n xs) b"
  then have "b \<le> 0 \<or> int n \<le> b" by (auto simp: inside_pending_def sort_init_def)
  then show "cut key n (mem (sort_init n xs)) b" by (auto simp: cut_def)
qed (use assms in \<open>auto simp: sort_init_def on_stack_def\<close>)

lemma pop_step:
  fixes s s' :: "'a sort_state"
  assumes inv: "sort_inv key n xs s"
    and pm: "permuted_in (l s - 1) (ir s - 1) (mem s) (mem s')"
    and srt: "\<forall>p q. l s - 1 \<le> p \<and> p \<le> q \<and> q \<le> ir s - 1
                \<longrightarrow> key (mem s' ! nat p) \<le> key (mem s' ! nat q)"
    and top: "on_stack s k0 (l s') (ir s')" "2 * int k0 + 2 = stackp s"
    and st: "stack s' = stack s" "stackp s' = stackp s - 2"
  shows "sort_inv key n xs s' \<and> weight s' < weight s"
proof -
  note i = sort_invD[OF inv]
  note os = on_stack_pop[OF st]
  have K: "nat (stackp s div 2) = Suc k0" using top(2) by auto
  have K': "nat (stackp s' div 2) = k0" using top(2) st(2) by auto
  note t = i(10)[OF top(1)]
  have lower: "k < k0" if "on_stack s' k a b" for k a b
    using that os top(2) by auto
  have G2: "permuted_in 0 (int n - 1) xs (mem s')"
  proof -
    have "permuted_in 0 (int n - 1) (mem s) (mem s')"
      using pm by (rule permuted_in_mono) (use i(3,5) in auto)
    with i(2) show ?thesis by (rule permuted_in_trans)
  qed
  have G9: "\<exists>a b. on_stack s' k a b" if "2 * int k + 2 \<le> stackp s'" for k
  proof -
    have "2 * int k + 2 \<le> stackp s" using that st(2) by simp
    from i(9)[OF this] show ?thesis using os that st(2) by auto
  qed
  have G10: "1 \<le> a \<and> a < b \<and> b \<le> int n \<and> (b - a + 1) * 2 ^ k \<le> int n \<and> 11 * 2 ^ k \<le> int n"
    if "on_stack s' k a b" for k a b
    using that os i(10) by blast
  have G11: "b < l s' \<or> ir s' < a" if "on_stack s' k a b" for k a b
  proof -
    have "k < k0" by (rule lower[OF that])
    then have ne: "k \<noteq> k0" by simp
    have o: "on_stack s k a b" using that os by simp
    from i(12)[OF o top(1) ne] show ?thesis by auto
  qed
  have G12: "b < a' \<or> b' < a"
    if "on_stack s' k a b" "on_stack s' k' a' b'" "k \<noteq> k'" for k a b k' a' b'
    using that os i(12) by blast
  have G13: "(ir s' - l s' + 1) * 2 ^ nat (stackp s' div 2) \<le> int n"
    unfolding K' using t by simp
  have G14: "cut key n (mem s') b" if b: "0 \<le> b" "b \<le> int n" "\<not> inside_pending s' b" for b
  proof (rule sorted_segment_cuts[OF inv pm srt b(1,2)])
    show "\<not> (\<exists>k pl pir. on_stack s k pl pir \<and> pl \<le> b \<and> b < pir)"
    proof
      assume "\<exists>k pl pir. on_stack s k pl pir \<and> pl \<le> b \<and> b < pir"
      then obtain k pl pir where o: "on_stack s k pl pir" "pl \<le> b" "b < pir" by blast
      show False
      proof (cases "k = k0")
        case True
        with o(1) top(1) have "pl = l s'" "pir = ir s'" by (auto dest: on_stack_fun)
        with o b(3) show False by (auto simp: inside_pending_def)
      next
        case False
        have "2 * int k + 2 \<le> stackp s" using o(1) by (simp add: on_stack_def)
        with False top(2) have "2 * int k + 4 \<le> stackp s" by auto
        with o(1) os have "on_stack s' k pl pir" by simp
        with o b(3) show False by (auto simp: inside_pending_def)
      qed
    qed
  qed
  have inv': "sort_inv key n xs s'"
    by (rule sort_invI[OF i(1) G2 _ _ _ _ _ _ G9 G10 G11 G12 G13 G14])
       (use t i(6,7,8) top(2) st in auto)
  have "the (stack s (2 * int k0 + 2)) = ir s'" "the (stack s (2 * int k0 + 1)) = l s'"
    using top(1) by (auto simp: on_stack_def)
  then have "weight s = stack_weight (stack s) k0 + (2 * nat (ir s' - l s' + 1) + 1)
      + (2 * nat (ir s - l s + 1) + 1)"
    unfolding weight_def K by simp
  moreover have "weight s' = stack_weight (stack s) k0 + (2 * nat (ir s' - l s' + 1) + 1)"
    unfolding weight_def K' st(1) by simp
  ultimately have "weight s' < weight s" by simp
  with inv' show ?thesis by simp
qed

lemma final_step:
  fixes s :: "'a sort_state"
  assumes inv: "sort_inv key n xs s"
    and pm: "permuted_in (l s - 1) (ir s - 1) (mem s) ys"
    and srt: "\<forall>p q. l s - 1 \<le> p \<and> p \<le> q \<and> q \<le> ir s - 1
                \<longrightarrow> key (ys ! nat p) \<le> key (ys ! nat q)"
    and emp: "stackp s = 0"
  shows "sorted (map key (take n ys)) \<and> mset (take n ys) = mset (take n xs)
       \<and> drop n ys = drop n xs \<and> length ys = length xs"
proof -
  note i = sort_invD[OF inv]
  have G2: "permuted_in 0 (int n - 1) xs ys"
  proof -
    have "permuted_in 0 (int n - 1) (mem s) ys"
      using pm by (rule permuted_in_mono) (use i(3,5) in auto)
    with i(2) show ?thesis by (rule permuted_in_trans)
  qed
  note p = permuted_prefix[OF G2 i(1)]
  have c: "cut key n ys b" if "0 \<le> b" "b \<le> int n" for b
    by (rule sorted_segment_cuts[OF inv pm srt that]) (simp add: on_stack_def emp)
  have nl: "n \<le> length ys" using p(3) i(1) by simp
  have "sorted (map key (take n ys))"
    by (rule all_cuts_sorted[OF c nl])
  with p show ?thesis by simp
qed

lemma small_branch_step:
  fixes s :: "'a sort_state"
  assumes inv: "sort_inv key n xs s"
    and small: "ir s - l s < INSERTION_THRESHOLD"
  shows "\<exists>ys. insertion_sort key (0, int n - 1) (ir s - l s + 1) (l s - 1) (mem s) = Inr ys
         \<and> ((\<exists>s'. small_branch key (0, int n - 1) s = Inr (False, s') \<and> sort_inv key n xs s'
                 \<and> weight s' < weight s \<and> stackp s' = stackp s - 2 \<and> stack s' = stack s
                 \<and> mem s' = ys)
            \<or> (\<exists>s'. small_branch key (0, int n - 1) s = Inr (True, s') \<and> stackp s = 0
                 \<and> stackp s' = stackp s \<and> stack s' = stack s \<and> mem s' = ys
                 \<and> sorted (map key (take n (mem s'))) \<and> mset (take n (mem s')) = mset (take n xs)
                 \<and> drop n (mem s') = drop n xs \<and> length (mem s') = length xs))"
proof -
  note i = sort_invD[OF inv]
  have h: "ir s \<le> int (length (mem s))" "fst (0, int n - 1) \<le> l s - 1"
    "ir s - 1 \<le> snd (0, int n - 1)"
    using i(1,3,5,15) by auto
  from insertion_sort_index[OF i(3,4) h, of key]
  obtain ys where ys: "insertion_sort key (0, int n - 1) (ir s - l s + 1) (l s - 1) (mem s) = Inr ys"
    "permuted_in (l s - 1) (ir s - 1) (mem s) ys"
    "\<forall>p q. l s - 1 \<le> p \<and> p \<le> q \<and> q \<le> ir s - 1 \<longrightarrow> key (ys ! nat p) \<le> key (ys ! nat q)"
    by blast
  show ?thesis
  proof (cases "stackp s = 0")
    case True
    have "small_branch key (0, int n - 1) s = Inr (True, s\<lparr>mem := ys\<rparr>)"
      unfolding small_branch_def by (simp add: ys(1) True)
    moreover note final_step[OF inv ys(2,3) True]
    ultimately show ?thesis using True ys(1) by auto
  next
    case False
    define k0 where "k0 = nat (stackp s div 2) - 1"
    have sp: "2 \<le> stackp s" using False i(6,7) by presburger
    then have k0: "2 * int k0 + 2 = stackp s" using i(7) by (auto simp: k0_def)
    then have "2 * int k0 + 2 \<le> stackp s" by simp
    from i(9)[OF this] obtain pl pir where top: "on_stack s k0 pl pir" by blast
    have e: "2 * int k0 + 1 = stackp s - 1" using k0 by simp
    have sl: "stack s (stackp s) = Some pir" "stack s (stackp s - 1) = Some pl"
      using top unfolding on_stack_def k0 e by simp_all
    have "stackp s \<in> dom (stack s)" using sl by auto
    then have "stackp s \<le> NSTACK - 2" using i(8) by auto
    then have ld: "stack_ld (stack s) (stackp s) = Inr pir"
      "stack_ld (stack s) (stackp s - 1) = Inr pl"
      using sl sp by (auto simp: stack_ld_def)
    define s' where "s' = s\<lparr>mem := ys, ir := pir, l := pl, stackp := stackp s - 2\<rparr>"
    have res: "small_branch key (0, int n - 1) s = Inr (False, s')"
      unfolding small_branch_def s'_def by (simp add: ys(1) False ld)
    have f: "mem s' = ys" "l s' = pl" "ir s' = pir" "stack s' = stack s"
      "stackp s' = stackp s - 2"
      by (simp_all add: s'_def)
    have "sort_inv key n xs s' \<and> weight s' < weight s"
      by (rule pop_step[OF inv _ _ _ k0 f(4,5)]) (use ys(2,3) top in \<open>simp_all add: f\<close>)
    with res f ys(1) show ?thesis by auto
  qed
qed

lemma current_bounds_cut:
  fixes s :: "'a sort_state"
  assumes inv: "sort_inv key n xs s"
  shows "cut key n (mem s) (l s - 1)" "cut key n (mem s) (ir s)"
proof -
  note i = sort_invD[OF inv]
  have "\<not> inside_pending s (l s - 1)"
  proof
    assume "inside_pending s (l s - 1)"
    then obtain k pl pir where "on_stack s k pl pir" "pl \<le> l s - 1" "l s - 1 < pir"
      by (auto simp: inside_pending_def)
    with i(11)[of k pl pir] i(4) show False by auto
  qed
  then show "cut key n (mem s) (l s - 1)" using i(14) i(3,4,5) by auto
  have "\<not> inside_pending s (ir s)"
  proof
    assume "inside_pending s (ir s)"
    then obtain k pl pir where "on_stack s k pl pir" "pl \<le> ir s" "ir s < pir"
      by (auto simp: inside_pending_def)
    with i(11)[of k pl pir] i(4) show False by auto
  qed
  then show "cut key n (mem s) (ir s)" using i(14) i(3,4,5) by auto
qed

lemma large_branch_step:
  fixes s :: "'a sort_state"
  assumes inv: "sort_inv key n xs s"
    and big: "\<not> ir s - l s < INSERTION_THRESHOLD"
  shows "\<exists>xs1 xs2 i j.
           median3 key (0, int n - 1) (mem s) (l s) (ir s) = Inr xs1
         \<and> partition_scan key (0, int n - 1) xs1 (l s) (ir s) = Inr (xs2, i, j)
         \<and> ((\<exists>s'. large_branch key (0, int n - 1) s = Inr (False, s') \<and> sort_inv key n xs s'
                 \<and> weight s' < weight s \<and> stackp s' = stackp s + 2 \<and> mem s' = xs2)
            \<or> (large_branch key (0, int n - 1) s = Inl StackBounds \<and> 11 * 2 ^ 24 \<le> int n))"
proof -
  note i = sort_invD[OF inv]
  let ?W = "(0::int, int n - 1)"
  have sz: "11 \<le> ir s - l s + 1" using big by (simp add: INSERTION_THRESHOLD_def)
  have lenm: "n \<le> length (mem s)" using i(1,15) by simp
  \<comment> \<open>median of three\<close>
  have hm: "fst ?W \<le> l s - 1" "ir s - 1 \<le> snd ?W" "ir s \<le> int (length (mem s))" "2 \<le> ir s - l s"
    using i(1,3,5,15) sz by auto
  from median3_spec[OF hm(1,2) i(3) hm(3,4), of key]
  obtain xs1 where m: "median3 key ?W (mem s) (l s) (ir s) = Inr xs1"
    "length xs1 = length (mem s)" "mset xs1 = mset (mem s)"
    "\<forall>p. 0 \<le> p \<and> p \<noteq> l s - 1 \<and> p \<noteq> l s \<and> p \<noteq> (l s + ir s) div 2 - 1 \<and> p \<noteq> ir s - 1
          \<longrightarrow> xs1 ! nat p = mem s ! nat p"
    "key (xs1 ! nat (l s - 1)) \<le> key (xs1 ! nat (l s))"
    "key (xs1 ! nat (l s)) \<le> key (xs1 ! nat (ir s - 1))"
    by blast
  have pm1: "permuted_in (l s - 1) (ir s - 1) (mem s) xs1"
    unfolding permuted_in_def using m(2,3,4) hm(4) by auto
  \<comment> \<open>partition\<close>
  have hp: "fst ?W \<le> l s" "0 \<le> l s" "ir s \<le> int (length xs1)"
    using i(3) hm(3) m(2) by auto
  from partition_scan_spec[OF hp(1) hm(2) hp(2,3) hm(4) m(6)]
  obtain xs2 i j where p: "partition_scan key ?W xs1 (l s) (ir s) = Inr (xs2, i, j)"
    "length xs2 = length xs1" "mset xs2 = mset xs1"
    "\<forall>p. 0 \<le> p \<and> (p < l s \<or> ir s - 1 \<le> p) \<longrightarrow> xs2 ! nat p = xs1 ! nat p"
    "l s + 1 \<le> j" "j < i" "i \<le> ir s"
    "\<forall>p. l s \<le> p \<and> p \<le> j - 2 \<longrightarrow> key (xs2 ! nat p) \<le> key (xs1 ! nat (l s))"
    "\<forall>p. j - 1 \<le> p \<and> p \<le> i - 2 \<longrightarrow> key (xs2 ! nat p) = key (xs1 ! nat (l s))"
    "\<forall>p. i - 1 \<le> p \<and> p \<le> ir s - 1 \<longrightarrow> key (xs1 ! nat (l s)) \<le> key (xs2 ! nat p)"
    "i \<le> j + 2"
    by blast
  have pm2: "permuted_in (l s - 1) (ir s - 1) xs1 xs2"
    unfolding permuted_in_def using p(2,3,4) by auto
  have pm: "permuted_in (l s - 1) (ir s - 1) (mem s) xs2"
    using pm1 pm2 by (rule permuted_in_trans)
  define a where "a = xs1 ! nat (l s)"
  have first: "key (xs2 ! nat (l s - 1)) \<le> key a"
  proof -
    have "xs2 ! nat (l s - 1) = xs1 ! nat (l s - 1)" using p(4) i(3) by auto
    with m(5) show ?thesis by (simp add: a_def)
  qed
  have LOW: "key (xs2 ! nat q) \<le> key a" if "l s - 1 \<le> q" "q \<le> i - 2" for q
  proof -
    have "q = l s - 1 \<or> (l s \<le> q \<and> q \<le> j - 2) \<or> (j - 1 \<le> q \<and> q \<le> i - 2)"
      using that by linarith
    then show ?thesis
    proof (elim disjE)
      assume "q = l s - 1"
      with first show ?thesis by simp
    next
      assume "l s \<le> q \<and> q \<le> j - 2"
      with p(8) show ?thesis unfolding a_def by blast
    next
      assume "j - 1 \<le> q \<and> q \<le> i - 2"
      with p(9) have "key (xs2 ! nat q) = key a" unfolding a_def by blast
      then show ?thesis by simp
    qed
  qed
  have HIGH: "key a \<le> key (xs2 ! nat q)" if "j - 1 \<le> q" "q \<le> ir s - 1" for q
  proof -
    have "(j - 1 \<le> q \<and> q \<le> i - 2) \<or> (i - 1 \<le> q \<and> q \<le> ir s - 1)"
      using that by linarith
    then show ?thesis
    proof (elim disjE)
      assume "j - 1 \<le> q \<and> q \<le> i - 2"
      with p(9) have "key (xs2 ! nat q) = key a" unfolding a_def by blast
      then show ?thesis by simp
    next
      assume "i - 1 \<le> q \<and> q \<le> ir s - 1"
      with p(10) show ?thesis unfolding a_def by blast
    qed
  qed
  note cb = current_bounds_cut[OF inv]
  have newcut: "cut key n xs2 b" if "j - 1 \<le> b" "b \<le> i - 1" for b
  proof -
    have c2: "cut key n (mem s) (ir s - 1 + 1)" using cb(2) by simp
    have loc: "\<forall>p q. l s - 1 \<le> p \<and> p < b \<and> b \<le> q \<and> q \<le> ir s - 1
        \<longrightarrow> key (xs2 ! nat p) \<le> key (xs2 ! nat q)"
    proof (intro allI impI)
      fix p q assume pq: "l s - 1 \<le> p \<and> p < b \<and> b \<le> q \<and> q \<le> ir s - 1"
      have "key (xs2 ! nat p) \<le> key a" by (rule LOW) (use pq that in auto)
      moreover have "key a \<le> key (xs2 ! nat q)" by (rule HIGH) (use pq that in auto)
      ultimately show "key (xs2 ! nat p) \<le> key (xs2 ! nat q)" by simp
    qed
    show ?thesis
      by (rule cut_inside[OF pm _ _ lenm cb(1) c2 _ _ loc]) (use that p(5,6,7) i(3,5) in auto)
  qed
  show ?thesis
  proof (cases "stackp s + 2 < NSTACK")
    case room: True
    have sp: "0 \<le> stackp s + 2" "0 \<le> stackp s + 2 - 1" "stackp s + 2 - 1 < NSTACK"
      using room i(6) by auto
    show ?thesis
    proof (cases "ir s - i + 1 \<ge> j - l s")
      case True
      define s' where "s' = s\<lparr>mem := xs2, ir := j - 1,
          stack := (stack s)(stackp s + 2 \<mapsto> ir s, stackp s + 2 - 1 \<mapsto> i),
          stackp := stackp s + 2\<rparr>"
      have res: "large_branch key ?W s = Inr (False, s')"
        unfolding large_branch_def s'_def
        using True room sp by (simp add: m(1) p(1) stack_st_def Let_def)
      have f: "mem s' = xs2" "l s' = l s" "ir s' = j - 1"
        "stack s' = (stack s)(stackp s + 2 \<mapsto> ir s, stackp s + 2 - 1 \<mapsto> i)"
        "stackp s' = stackp s + 2"
        by (simp_all add: s'_def)
      have "sort_inv key n xs s' \<and> weight s' < weight s"
      proof (rule push_step[OF inv sz room _ _ _ _ _ _ _ _ _ _ _ _ f(4,5)])
        show "permuted_in (l s - 1) (ir s - 1) (mem s) (mem s')" using pm by (simp add: f)
        fix b assume "l s \<le> b" "b < ir s" "\<not> (l s' \<le> b \<and> b < ir s')" "\<not> (i \<le> b \<and> b < ir s)"
        then have "j - 1 \<le> b" "b \<le> i - 1" by (auto simp: f)
        then show "cut key n (mem s') b" unfolding f by (rule newcut)
      qed (use True p(5,6,7,11) in \<open>auto simp: f\<close>)
      with res f(1,5) m(1) p(1) show ?thesis by blast
    next
      case False
      define s' where "s' = s\<lparr>mem := xs2, l := i,
          stack := (stack s)(stackp s + 2 \<mapsto> j - 1, stackp s + 2 - 1 \<mapsto> l s),
          stackp := stackp s + 2\<rparr>"
      have res: "large_branch key ?W s = Inr (False, s')"
        unfolding large_branch_def s'_def
        using False room sp by (simp add: m(1) p(1) stack_st_def Let_def)
      have f: "mem s' = xs2" "l s' = i" "ir s' = ir s"
        "stack s' = (stack s)(stackp s + 2 \<mapsto> j - 1, stackp s + 2 - 1 \<mapsto> l s)"
        "stackp s' = stackp s + 2"
        by (simp_all add: s'_def)
      have "sort_inv key n xs s' \<and> weight s' < weight s"
      proof (rule push_step[OF inv sz room _ _ _ _ _ _ _ _ _ _ _ _ f(4,5)])
        show "permuted_in (l s - 1) (ir s - 1) (mem s) (mem s')" using pm by (simp add: f)
        fix b assume "l s \<le> b" "b < ir s" "\<not> (l s' \<le> b \<and> b < ir s')" "\<not> (l s \<le> b \<and> b < j - 1)"
        then have "j - 1 \<le> b" "b \<le> i - 1" by (auto simp: f)
        then show "cut key n (mem s') b" unfolding f by (rule newcut)
      qed (use False p(5,6,7,11) in \<open>auto simp: f\<close>)
      with res f(1,5) m(1) p(1) show ?thesis by blast
    qed
  next
    case False
    have st: "stack_st (stack s) (stackp s + 2) v = Inl StackBounds" for v
      using False by (simp add: stack_st_def)
    have res: "large_branch key ?W s = Inl StackBounds"
      unfolding large_branch_def by (simp add: m(1) p(1) st Let_def)
    define K where "K = nat (stackp s div 2)"
    have "48 \<le> stackp s" using False by (simp add: NSTACK_def)
    then have "24 \<le> K" by (simp add: K_def)
    then have "(2::int) ^ 24 \<le> 2 ^ K" by (intro power_increasing) auto
    then have "11 * (2::int) ^ 24 \<le> (ir s - l s + 1) * 2 ^ K"
      using sz by (intro mult_mono) auto
    also have "\<dots> \<le> int n" using i(13) by (simp add: K_def)
    finally show ?thesis using res m(1) p(1) by blast
  qed
qed

lemma sort_body_step:
  fixes s :: "'a sort_state"
  assumes inv: "sort_inv key n xs s"
  shows "(\<exists>s'. sort_body key (0, int n - 1) s = Inr (False, s') \<and> sort_inv key n xs s'
             \<and> weight s' < weight s)
       \<or> (\<exists>s'. sort_body key (0, int n - 1) s = Inr (True, s')
             \<and> sorted (map key (take n (mem s'))) \<and> mset (take n (mem s')) = mset (take n xs)
             \<and> drop n (mem s') = drop n xs \<and> length (mem s') = length xs)
       \<or> (sort_body key (0, int n - 1) s = Inl StackBounds \<and> 11 * 2 ^ 24 \<le> int n)"
proof (cases "ir s - l s < INSERTION_THRESHOLD")
  case True
  from small_branch_step[OF inv True] True show ?thesis
    unfolding sort_body_def by auto
next
  case False
  from large_branch_step[OF inv False] False show ?thesis
    unfolding sort_body_def by auto
qed

lemma sort_loop_total:
  fixes s :: "'a sort_state"
  assumes "sort_inv key n xs s"
  shows "(\<exists>ys. sort_loop key (0, int n - 1) s = Some (Inr ys)
            \<and> sorted (map key (take n ys)) \<and> mset (take n ys) = mset (take n xs)
            \<and> drop n ys = drop n xs \<and> length ys = length xs)
       \<or> (sort_loop key (0, int n - 1) s = Some (Inl StackBounds) \<and> 11 * 2 ^ 24 \<le> int n)"
  using assms
proof (induction "weight s" arbitrary: s rule: less_induct)
  case less
  from sort_body_step[OF less.prems]
  show ?case
  proof (elim disjE exE conjE)
    fix s' assume b: "sort_body key (0, int n - 1) s = Inr (False, s')"
      and inv': "sort_inv key n xs s'" and w: "weight s' < weight s"
    have "sort_loop key (0, int n - 1) s = sort_loop key (0, int n - 1) s'"
      by (subst sort_loop.simps) (simp add: b)
    with less.hyps[OF w inv'] show ?thesis by simp
  next
    fix s' assume b: "sort_body key (0, int n - 1) s = Inr (True, s')"
      and r: "sorted (map key (take n (mem s')))" "mset (take n (mem s')) = mset (take n xs)"
        "drop n (mem s') = drop n xs" "length (mem s') = length xs"
    have "sort_loop key (0, int n - 1) s = Some (Inr (mem s'))"
      by (subst sort_loop.simps) (simp add: b)
    with r show ?thesis by blast
  next
    assume b: "sort_body key (0, int n - 1) s = Inl StackBounds" and n: "11 * 2 ^ 24 \<le> int n"
    have "sort_loop key (0, int n - 1) s = Some (Inl StackBounds)"
      by (subst sort_loop.simps) (simp add: b)
    with n show ?thesis by blast
  qed
qed

lemma sort_total:
  assumes "n \<le> length xs"
  shows "(\<exists>ys. sort key n xs = Some (Inr ys)
            \<and> sorted (map key (take n ys)) \<and> mset (take n ys) = mset (take n xs)
            \<and> drop n ys = drop n xs \<and> length ys = length xs)
       \<or> (sort key n xs = Some (Inl StackBounds) \<and> 11 * 2 ^ 24 \<le> int n)"
  unfolding sort_def by (rule sort_loop_total[OF sort_inv_init[OF assms]])

lemma reach_inv:
  assumes "reach key n xs s" "n \<le> length xs"
  shows "sort_inv key n xs s"
  using assms
proof (induction rule: reach.induct)
  case reach_init
  then show ?case by (rule sort_inv_init)
next
  case (reach_step s s')
  from sort_body_step[OF reach_step.IH[OF reach_step.prems]] reach_step.hyps(2)
  show ?case by auto
qed

lemma depth_log:
  fixes s :: "'a sort_state"
  assumes inv: "sort_inv key n xs s"
  shows "stackp s \<le> 2 * int (ceillog2 n)"
proof (cases "stackp s = 0")
  case True
  then show ?thesis by simp
next
  case False
  note i = sort_invD[OF inv]
  define k0 where "k0 = nat (stackp s div 2) - 1"
  have sp: "2 \<le> stackp s" using False i(6,7) by presburger
  then have k0: "2 * int k0 + 2 = stackp s" using i(7) by (auto simp: k0_def)
  then have "2 * int k0 + 2 \<le> stackp s" by simp
  from i(9)[OF this] obtain pl pir where "on_stack s k0 pl pir" by blast
  from i(10)[OF this] have "11 * 2 ^ k0 \<le> int n" by simp
  then have "int (11 * 2 ^ k0) \<le> int n" by simp
  then have a: "11 * 2 ^ k0 \<le> n" by (simp only: of_nat_le_iff)
  have p1: "1 \<le> (2::nat) ^ k0" by simp
  have n0: "0 < n" using a p1 by linarith
  have "(2::nat) ^ k0 < n" using a p1 by linarith
  then have "(2::nat) ^ Suc k0 < 2 * n" by simp
  then have "Suc k0 \<le> ceillog2 n" using ceillog2_ge_iff[OF n0] by simp
  then show ?thesis using k0 by simp
qed

lemma scan_up_progress:
  "scan_up key W xs i a = Inr i' \<Longrightarrow> i < i'"
proof (induction key W xs i a rule: scan_up.induct)
  case (1 key W xs i a)
  from "1.prems" obtain v where r: "rd W xs i = Inr v"
    by (subst (asm) scan_up.simps) (auto split: sum.splits)
  show ?case
  proof (cases "key v < key a")
    case True
    with r "1.prems" have "scan_up key W xs (i + 1) a = Inr i'"
      by (subst (asm) scan_up.simps) simp
    from "1.IH"[OF r True this] show ?thesis by simp
  next
    case False
    with r "1.prems" have "i' = i + 1" by (subst (asm) scan_up.simps) simp
    then show ?thesis by simp
  qed
qed

lemma scan_down_progress:
  "scan_down key W xs j a = Inr j' \<Longrightarrow> j' < j"
proof (induction key W xs j a rule: scan_down.induct)
  case (1 key W xs j a)
  from "1.prems" obtain v where r: "rd W xs (j - 2) = Inr v"
    by (subst (asm) scan_down.simps) (auto split: sum.splits)
  show ?case
  proof (cases "key a < key v")
    case True
    with r "1.prems" have "scan_down key W xs (j - 1) a = Inr j'"
      by (subst (asm) scan_down.simps) simp
    from "1.IH"[OF r True this] show ?thesis by simp
  next
    case False
    with r "1.prems" have "j' = j - 1" by (subst (asm) scan_down.simps) simp
    then show ?thesis by simp
  qed
qed

text \<open>The equations that run the model on a concrete input.\<close>

lemmas run_simps =
  rd_def wr_def SWAP_def SWAP_IF_GREATER_def median3_def partition_scan_def
  scan_up.simps scan_down.simps partition_loop.simps ins_while.simps ins_for.simps
  insertion_sort_def small_branch_def large_branch_def sort_body_def sort_init_def
  stack_ld_def stack_st_def INSERTION_THRESHOLD_def NSTACK_def signed_divide_int_def

lemma insertion_sort_short:
  assumes "0 \<le> m" "m \<le> 1"
  shows "insertion_sort key W m a xs = Inr xs"
  using assms unfolding insertion_sort_def by (subst ins_for.simps) auto

lemma sort_init_small_break:
  assumes "n \<le> 1"
  shows "sort_body key W (sort_init n xs) = Inr (True, sort_init n xs)"
proof -
  have n: "n = 0 \<or> n = 1" using assms by auto
  have "ins_for key W xs 0 (int n - 1 + 1) (0 + 1) = Inr xs"
    using n by (subst ins_for.simps) auto
  then show ?thesis
    using n by (auto simp: sort_body_def small_branch_def sort_init_def insertion_sort_def
        INSERTION_THRESHOLD_def)
qed

section \<open>The claims\<close>

text \<open>
  Claim C1. For every array of at least \<open>n\<close> cells, when \<^verbatim>\<open>sort(n, arr)\<close> returns, the
  first \<open>n\<close> cells are in non-descending order and are a permutation of what they were
  (as multisets, so duplicates keep their multiplicity); the array is the same object,
  of the same length, and the cells after the first \<open>n\<close> are untouched. The call always
  ends, and it returns normally for every \<open>n\<close> below \<open>11 * 2 ^ 24\<close>, the sizes for which
  the 50 slots of the stack are enough whatever the order of the input.
\<close>

theorem sort_sorts_and_permutes:
  assumes "n \<le> length xs"
  shows "(\<exists>r. sort key n xs = Some r)
       \<and> (\<forall>ys. sort key n xs = Some (Inr ys) \<longrightarrow>
             sorted (map key (take n ys)) \<and> mset (take n ys) = mset (take n xs)
             \<and> drop n ys = drop n xs \<and> length ys = length xs)
       \<and> (n < 11 * 2 ^ 24 \<longrightarrow> (\<exists>ys. sort key n xs = Some (Inr ys)))"
  using sort_total[OF assms, of key] by auto

theorem sort_sorts_and_permutes_witness:
  "sort id 12 [9,8,7,6,5,4,3,2,1,0,11,10::int] = Some (Inr [0,1,2,3,4,5,6,7,8,9,10,11])
   \<and> sorted (map id (take 12 [0,1,2,3,4,5,6,7,8,9,10,11::int]))
   \<and> mset (take 12 [0,1,2,3,4,5,6,7,8,9,10,11::int]) = mset (take 12 [9,8,7,6,5,4,3,2,1,0,11,10])"
proof -
  let ?xs = "[9,8,7,6,5,4,3,2,1,0,11,10::int]"
  have h: "12 \<le> length ?xs" by simp
  have r: "sort id 12 ?xs = Some (Inr [0,1,2,3,4,5,6,7,8,9,10,11])"
    by (simp add: sort_def sort_loop.simps run_simps)
  from sort_sorts_and_permutes[OF h, of id] r
  have "sorted (map id (take 12 [0,1,2,3,4,5,6,7,8,9,10,11::int]))
     \<and> mset (take 12 [0,1,2,3,4,5,6,7,8,9,10,11::int]) = mset (take 12 ?xs)"
    by blast
  with r show ?thesis by blast
qed

text \<open>
  Claim C2, as amended. The main loop runs the insertion pass on the current subrange if
  and only if its length \<open>ir - l + 1\<close> is at most \<open>INSERTION_THRESHOLD = 10\<close>; a
  subrange of 11 or more cells is partitioned. In every state the loop passes through:
  when the length is at most 10 the pass is the insertion sort of the subrange, the stack
  is left as it is and nothing is pushed; when it is above 10 the pass is the median of
  three and the partition of the subrange, followed by the push of one pair.
\<close>

theorem insertion_pass_up_to_threshold:
  "sort_body key W s =
     (if ir s - l s + 1 \<le> INSERTION_THRESHOLD then small_branch key W s
      else large_branch key W s)
   \<and> (reach key n xs s \<and> n \<le> length xs \<and> ir s - l s + 1 \<le> INSERTION_THRESHOLD \<longrightarrow>
        (\<exists>ys brk s'. insertion_sort key (0, int n - 1) (ir s - l s + 1) (l s - 1) (mem s) = Inr ys
           \<and> sort_body key (0, int n - 1) s = Inr (brk, s')
           \<and> mem s' = ys \<and> stack s' = stack s \<and> stackp s' \<le> stackp s))
   \<and> (reach key n xs s \<and> n \<le> length xs \<and> INSERTION_THRESHOLD < ir s - l s + 1 \<longrightarrow>
        (\<exists>xs1 xs2 i j. median3 key (0, int n - 1) (mem s) (l s) (ir s) = Inr xs1
           \<and> partition_scan key (0, int n - 1) xs1 (l s) (ir s) = Inr (xs2, i, j)
           \<and> (sort_body key (0, int n - 1) s = Inl StackBounds
              \<or> (\<exists>s'. sort_body key (0, int n - 1) s = Inr (False, s')
                    \<and> mem s' = xs2 \<and> stackp s' = stackp s + 2))))"
proof (intro conjI impI)
  show "sort_body key W s =
     (if ir s - l s + 1 \<le> INSERTION_THRESHOLD then small_branch key W s
      else large_branch key W s)"
    by (simp add: sort_body_def)
next
  assume a: "reach key n xs s \<and> n \<le> length xs \<and> ir s - l s + 1 \<le> INSERTION_THRESHOLD"
  then have inv: "sort_inv key n xs s" by (auto intro: reach_inv)
  have small: "ir s - l s < INSERTION_THRESHOLD" using a by simp
  have b: "sort_body key (0, int n - 1) s = small_branch key (0, int n - 1) s"
    using small by (simp add: sort_body_def)
  from small_branch_step[OF inv small] show
    "\<exists>ys brk s'. insertion_sort key (0, int n - 1) (ir s - l s + 1) (l s - 1) (mem s) = Inr ys
           \<and> sort_body key (0, int n - 1) s = Inr (brk, s')
           \<and> mem s' = ys \<and> stack s' = stack s \<and> stackp s' \<le> stackp s"
    unfolding b by fastforce
next
  assume a: "reach key n xs s \<and> n \<le> length xs \<and> INSERTION_THRESHOLD < ir s - l s + 1"
  then have inv: "sort_inv key n xs s" by (auto intro: reach_inv)
  have big: "\<not> ir s - l s < INSERTION_THRESHOLD" using a by simp
  have b: "sort_body key (0, int n - 1) s = large_branch key (0, int n - 1) s"
    using big by (simp add: sort_body_def)
  from large_branch_step[OF inv big] show
    "\<exists>xs1 xs2 i j. median3 key (0, int n - 1) (mem s) (l s) (ir s) = Inr xs1
           \<and> partition_scan key (0, int n - 1) xs1 (l s) (ir s) = Inr (xs2, i, j)
           \<and> (sort_body key (0, int n - 1) s = Inl StackBounds
              \<or> (\<exists>s'. sort_body key (0, int n - 1) s = Inr (False, s')
                    \<and> mem s' = xs2 \<and> stackp s' = stackp s + 2))"
    unfolding b by blast
qed

theorem insertion_pass_up_to_threshold_witness:
  "(\<exists>ys brk s'. insertion_sort id (0, int 10 - 1) 10 0 [0,1,2,3,4,5,6,7,8,9::int] = Inr ys
        \<and> sort_body id (0, int 10 - 1) (sort_init 10 [0,1,2,3,4,5,6,7,8,9]) = Inr (brk, s')
        \<and> mem s' = ys \<and> stackp s' \<le> 0)
   \<and> (\<exists>xs1 xs2 i j s'. median3 id (0, int 11 - 1) [0,1,2,3,4,5,6,7,8,9,10::int] 1 11 = Inr xs1
        \<and> partition_scan id (0, int 11 - 1) xs1 1 11 = Inr (xs2, i, j)
        \<and> sort_body id (0, int 11 - 1) (sort_init 11 [0,1,2,3,4,5,6,7,8,9,10]) = Inr (False, s')
        \<and> mem s' = xs2 \<and> stackp s' = 0 + 2)"
proof -
  let ?xs = "[0,1,2,3,4,5,6,7,8,9::int]"
  let ?s = "sort_init 10 ?xs"
  have h: "reach id 10 ?xs ?s \<and> 10 \<le> length ?xs \<and> ir ?s - l ?s + 1 \<le> INSERTION_THRESHOLD"
    using reach_init[of id 10 ?xs] by (simp add: sort_init_def INSERTION_THRESHOLD_def)
  have f: "ir ?s - l ?s + 1 = 10" "l ?s - 1 = 0" "mem ?s = ?xs" "stackp ?s = 0"
    by (simp_all add: sort_init_def)
  from insertion_pass_up_to_threshold[of id "(0, int 10 - 1)" ?s 10 ?xs] h
  have "\<exists>ys brk s'. insertion_sort id (0, int 10 - 1) (ir ?s - l ?s + 1) (l ?s - 1) (mem ?s) = Inr ys
           \<and> sort_body id (0, int 10 - 1) ?s = Inr (brk, s')
           \<and> mem s' = ys \<and> stack s' = stack ?s \<and> stackp s' \<le> stackp ?s"
    by blast
  then have A: "\<exists>ys brk s'. insertion_sort id (0, int 10 - 1) 10 0 ?xs = Inr ys
        \<and> sort_body id (0, int 10 - 1) ?s = Inr (brk, s')
        \<and> mem s' = ys \<and> stackp s' \<le> 0"
    unfolding f by blast
  let ?ys = "[0,1,2,3,4,5,6,7,8,9,10::int]"
  let ?t = "sort_init 11 ?ys"
  have h': "reach id 11 ?ys ?t \<and> 11 \<le> length ?ys \<and> INSERTION_THRESHOLD < ir ?t - l ?t + 1"
    using reach_init[of id 11 ?ys] by (simp add: sort_init_def INSERTION_THRESHOLD_def)
  have g: "l ?t = 1" "ir ?t = 11" "mem ?t = ?ys" "stackp ?t = 0"
    by (simp_all add: sort_init_def)
  have nf: "sort_body id (0, int 11 - 1) ?t \<noteq> Inl StackBounds"
    by (simp add: run_simps)
  from insertion_pass_up_to_threshold[of id "(0, int 11 - 1)" ?t 11 ?ys] h'
  have "\<exists>xs1 xs2 i j. median3 id (0, int 11 - 1) (mem ?t) (l ?t) (ir ?t) = Inr xs1
           \<and> partition_scan id (0, int 11 - 1) xs1 (l ?t) (ir ?t) = Inr (xs2, i, j)
           \<and> (sort_body id (0, int 11 - 1) ?t = Inl StackBounds
              \<or> (\<exists>s'. sort_body id (0, int 11 - 1) ?t = Inr (False, s')
                    \<and> mem s' = xs2 \<and> stackp s' = stackp ?t + 2))"
    by blast
  then have B: "\<exists>xs1 xs2 i j s'. median3 id (0, int 11 - 1) ?ys 1 11 = Inr xs1
        \<and> partition_scan id (0, int 11 - 1) xs1 1 11 = Inr (xs2, i, j)
        \<and> sort_body id (0, int 11 - 1) ?t = Inr (False, s')
        \<and> mem s' = xs2 \<and> stackp s' = 0 + 2"
    using nf unfolding g by blast
  from A B show ?thesis by blast
qed

text \<open>
  As stated in claim C2 (insertion pass if and only if the length is strictly less than
  10), the property fails on a subrange of exactly 10 cells: the code sorts it by
  insertion and does not partition it.
\<close>

theorem insertion_pass_below_threshold_counterexample:
  "\<not> (sort_body id (0, 9) (sort_init 10 [0,1,2,3,4,5,6,7,8,9::int]) =
       (if ir (sort_init 10 [0,1,2,3,4,5,6,7,8,9::int])
             - l (sort_init 10 [0,1,2,3,4,5,6,7,8,9::int]) + 1 < INSERTION_THRESHOLD
        then small_branch id (0, 9) (sort_init 10 [0,1,2,3,4,5,6,7,8,9::int])
        else large_branch id (0, 9) (sort_init 10 [0,1,2,3,4,5,6,7,8,9::int])))"
proof -
  let ?s = "sort_init 10 [0,1,2,3,4,5,6,7,8,9::int]"
  have len: "ir ?s - l ?s + 1 = 10" by (simp add: sort_init_def)
  have sm: "sort_body id (0, 9) ?s = Inr (True, ?s)"
    by (simp add: run_simps)
  have "\<exists>s'. large_branch id (0, 9) ?s = Inr (False, s')"
    by (simp add: run_simps)
  then obtain s' where lg: "large_branch id (0, 9) ?s = Inr (False, s')" by blast
  show ?thesis
    by (simp only: len sm lg INSERTION_THRESHOLD_def) simp
qed

text \<open>
  Claim C3. In every state that an execution of \<^verbatim>\<open>sort(n, arr)\<close> with \<open>n \<ge> 1\<close> passes
  through, whatever the order of the input, the number of pointers on the stack
  (\<open>stackp\<close>, the slots \<open>1\<close> to \<open>stackp\<close> being the ones in use) is at most
  \<open>2 * ceillog2 n\<close>, that is at most \<open>ceillog2 n\<close> pairs.
\<close>

theorem stack_depth_logarithmic:
  assumes "reach key n xs s" "n \<le> length xs" "1 \<le> n"
  shows "stackp s \<le> 2 * int (ceillog2 n) \<and> stackp s div 2 \<le> int (ceillog2 n)
       \<and> 0 \<le> stackp s \<and> even (stackp s)
       \<and> (\<forall>k. stack s k \<noteq> None \<longrightarrow> 1 \<le> k)
       \<and> (\<forall>k. 1 \<le> k \<and> k \<le> stackp s \<longrightarrow> stack s k \<noteq> None)"
proof -
  have inv: "sort_inv key n xs s" by (rule reach_inv[OF assms(1,2)])
  note i = sort_invD[OF inv]
  have d: "stackp s \<le> 2 * int (ceillog2 n)" by (rule depth_log[OF inv])
  have lo: "1 \<le> k" if "stack s k \<noteq> None" for k
    using that i(8) by (auto simp: dom_def)
  have full: "stack s k \<noteq> None" if k: "1 \<le> k" "k \<le> stackp s" for k
  proof -
    define m where "m = nat ((k - 1) div 2)"
    have im: "int m = (k - 1) div 2" using k by (simp add: m_def)
    have "2 * ((k - 1) div 2) + 2 \<le> stackp s" using k i(7) by presburger
    then have "2 * int m + 2 \<le> stackp s" by (simp only: im)
    from i(9)[OF this] obtain pl pir where "on_stack s m pl pir" by blast
    moreover have "k = 2 * ((k - 1) div 2) + 1 \<or> k = 2 * ((k - 1) div 2) + 2" by presburger
    then have "k = 2 * int m + 1 \<or> k = 2 * int m + 2" by (simp only: im)
    ultimately show ?thesis by (auto simp: on_stack_def)
  qed
  from d i(6,7) lo full show ?thesis by auto
qed

theorem stack_depth_logarithmic_witness:
  "reach id 12 [9,8,7,6,5,4,3,2,1,0,11,10::int]
     \<lparr>mem = [4,0,7,6,5,8,3,2,1,9,11,10], ir = 12, l = 11,
        stack = [2 \<mapsto> 9, 1 \<mapsto> 1], stackp = 2\<rparr>
   \<and> (2::int) \<le> 2 * int (ceillog2 12)"
proof -
  let ?xs = "[9,8,7,6,5,4,3,2,1,0,11,10::int]"
  let ?s = "\<lparr>mem = [4,0,7,6,5,8,3,2,1,9,11,10::int], ir = 12, l = 11,
        stack = [2 \<mapsto> 9, 1 \<mapsto> 1], stackp = 2\<rparr>"
  have b: "sort_body id (0, int 12 - 1) (sort_init 12 ?xs) = Inr (False, ?s)"
    by (simp add: run_simps)
  have r: "reach id 12 ?xs ?s" by (rule reach_step[OF reach_init b])
  have h: "12 \<le> length ?xs" "1 \<le> (12::nat)" by simp_all
  from stack_depth_logarithmic[OF r h] have "stackp ?s \<le> 2 * int (ceillog2 12)" by blast
  then have "(2::int) \<le> 2 * int (ceillog2 12)" by simp
  with r show ?thesis by blast
qed

text \<open>
  Claim C4. At every partition step the two subranges produced are \<open>(l, j - 1)\<close> and
  \<open>(i, ir)\<close>; one of them is stored in the two new top slots of the stack and the other
  becomes the current subrange, and the one on the stack is at least as long as the one
  continued with.
\<close>

theorem larger_subrange_is_pushed:
  assumes "large_branch key W s = Inr (brk, s')"
  shows "\<exists>xs1 xs2 i j pl pir.
           median3 key W (mem s) (l s) (ir s) = Inr xs1
         \<and> partition_scan key W xs1 (l s) (ir s) = Inr (xs2, i, j)
         \<and> \<not> brk \<and> stackp s' = stackp s + 2
         \<and> stack s' (stackp s' - 1) = Some pl \<and> stack s' (stackp s') = Some pir
         \<and> (\<forall>k. k \<noteq> stackp s' \<and> k \<noteq> stackp s' - 1 \<longrightarrow> stack s' k = stack s k)
         \<and> ((pl = i \<and> pir = ir s \<and> l s' = l s \<and> ir s' = j - 1)
            \<or> (pl = l s \<and> pir = j - 1 \<and> l s' = i \<and> ir s' = ir s))
         \<and> ir s' - l s' + 1 \<le> pir - pl + 1"
proof -
  from assms obtain xs1 where m: "median3 key W (mem s) (l s) (ir s) = Inr xs1"
    unfolding large_branch_def by (auto split: sum.splits)
  from assms m obtain xs2 i j where p: "partition_scan key W xs1 (l s) (ir s) = Inr (xs2, i, j)"
    unfolding large_branch_def by (auto split: sum.splits)
  show ?thesis
  proof (cases "ir s - i + 1 \<ge> j - l s")
    case True
    with assms m p have "brk = False"
      "s' = s\<lparr>mem := xs2, ir := j - 1,
              stack := (stack s)(stackp s + 2 \<mapsto> ir s, stackp s + 2 - 1 \<mapsto> i),
              stackp := stackp s + 2\<rparr>"
      unfolding large_branch_def stack_st_def
      by (auto simp: Let_def split: sum.splits if_splits)
    with m p True show ?thesis by simp
  next
    case False
    with assms m p have "brk = False"
      "s' = s\<lparr>mem := xs2, l := i,
              stack := (stack s)(stackp s + 2 \<mapsto> j - 1, stackp s + 2 - 1 \<mapsto> l s),
              stackp := stackp s + 2\<rparr>"
      unfolding large_branch_def stack_st_def
      by (auto simp: Let_def split: sum.splits if_splits)
    with m p False show ?thesis by simp
  qed
qed

theorem larger_subrange_is_pushed_witness:
  "large_branch id (0, 11) (sort_init 12 [9,8,7,6,5,4,3,2,1,0,11,10::int])
     = Inr (False, \<lparr>mem = [4,0,7,6,5,8,3,2,1,9,11,10], ir = 12, l = 11,
          stack = [2 \<mapsto> 9, 1 \<mapsto> 1], stackp = 2\<rparr>)
   \<and> (\<exists>pl pir. [2 \<mapsto> 9, 1 \<mapsto> 1::int] (2 - 1 :: int) = Some pl \<and> [2 \<mapsto> 9, 1 \<mapsto> 1::int] (2::int) = Some pir
        \<and> (12::int) - 11 + 1 \<le> pir - pl + 1)"
proof -
  let ?s = "sort_init 12 [9,8,7,6,5,4,3,2,1,0,11,10::int]"
  let ?s' = "\<lparr>mem = [4,0,7,6,5,8,3,2,1,9,11,10::int], ir = 12, l = 11,
          stack = [2 \<mapsto> 9, 1 \<mapsto> 1], stackp = 2\<rparr>"
  have h: "large_branch id (0, 11) ?s = Inr (False, ?s')"
    by (simp add: run_simps)
  from larger_subrange_is_pushed[OF h]
  obtain pl pir where "stack ?s' (stackp ?s' - 1) = Some pl" "stack ?s' (stackp ?s') = Some pir"
    "ir ?s' - l ?s' + 1 \<le> pir - pl + 1" by blast
  then have "[2 \<mapsto> 9, 1 \<mapsto> 1::int] (2 - 1 :: int) = Some pl \<and> [2 \<mapsto> 9, 1 \<mapsto> 1::int] (2::int) = Some pir
        \<and> (12::int) - 11 + 1 \<le> pir - pl + 1" by simp
  with h show ?thesis by blast
qed

text \<open>
  Claim C5. For every working subrange long enough to be partitioned, written here by its
  first cell \<open>lo\<close> and last cell \<open>hi\<close> (the pointers are \<open>l = lo + 1\<close> and
  \<open>ir = hi + 1\<close>, and the midpoint \<open>(l + ir) / 2 - 1\<close> is \<open>(lo + hi) div 2\<close>): after the
  median-of-three step the cells \<open>lo\<close>, \<open>lo + 1\<close>, \<open>hi\<close> hold the three elements that
  were at \<open>lo\<close>, the midpoint and \<open>hi\<close>, in non-descending order, so the cell
  \<open>lo + 1\<close> holds their median; no cell other than these four is modified; and the
  element at \<open>lo + 1\<close> is the pivot with which the partition loop is run.
\<close>

theorem median3_places_median:
  fixes lo hi :: int
  assumes "0 \<le> lo" "hi < int (length xs)" "fst W \<le> lo" "hi \<le> snd W"
    and "\<not> (hi + 1) - (lo + 1) < INSERTION_THRESHOLD"
  shows "\<exists>xs'. median3 key W xs (lo + 1) (hi + 1) = Inr xs'
           \<and> length xs' = length xs \<and> mset xs' = mset xs
           \<and> (\<forall>p. 0 \<le> p \<and> p < int (length xs) \<and> p \<notin> {lo, lo + 1, (lo + hi) div 2, hi}
                  \<longrightarrow> xs' ! nat p = xs ! nat p)
           \<and> key (xs' ! nat lo) \<le> key (xs' ! nat (lo + 1))
           \<and> key (xs' ! nat (lo + 1)) \<le> key (xs' ! nat hi)
           \<and> {#xs' ! nat lo, xs' ! nat (lo + 1), xs' ! nat hi#}
               = {#xs ! nat lo, xs ! nat ((lo + hi) div 2), xs ! nat hi#}
           \<and> partition_scan key W xs' (lo + 1) (hi + 1)
               = (case partition_loop key W xs' (lo + 1 + 1) (hi + 1) (xs' ! nat (lo + 1)) of
                    Inl e \<Rightarrow> Inl e
                  | Inr (xs1, i, j) \<Rightarrow>
                      (case rd W xs1 (j - 1) of Inl e \<Rightarrow> Inl e | Inr v \<Rightarrow>
                       case wr W xs1 (lo + 1) v of Inl e \<Rightarrow> Inl e | Inr xs2 \<Rightarrow>
                       case wr W xs2 (j - 1) (xs' ! nat (lo + 1)) of Inl e \<Rightarrow> Inl e
                       | Inr xs3 \<Rightarrow> Inr (xs3, i, j)))"
proof -
  have b: "fst W \<le> lo + 1 - 1" "hi + 1 - 1 \<le> snd W" "1 \<le> lo + 1" "hi + 1 \<le> int (length xs)"
    "2 \<le> hi + 1 - (lo + 1)"
    using assms by (auto simp: INSERTION_THRESHOLD_def)
  have m: "(lo + 1 + (hi + 1)) div 2 - 1 = (lo + hi) div 2" by simp
  from median3_spec[OF b, of key]
  obtain xs' where r: "median3 key W xs (lo + 1) (hi + 1) = Inr xs'"
    "length xs' = length xs" "mset xs' = mset xs"
    "\<forall>p. 0 \<le> p \<and> p \<noteq> lo + 1 - 1 \<and> p \<noteq> lo + 1 \<and> p \<noteq> (lo + 1 + (hi + 1)) div 2 - 1 \<and> p \<noteq> hi + 1 - 1
          \<longrightarrow> xs' ! nat p = xs ! nat p"
    "key (xs' ! nat (lo + 1 - 1)) \<le> key (xs' ! nat (lo + 1))"
    "key (xs' ! nat (lo + 1)) \<le> key (xs' ! nat (hi + 1 - 1))"
    "{#xs' ! nat (lo + 1 - 1), xs' ! nat (lo + 1), xs' ! nat (hi + 1 - 1)#}
       = {#xs ! nat (lo + 1 - 1), xs ! nat ((lo + 1 + (hi + 1)) div 2 - 1), xs ! nat (hi + 1 - 1)#}"
    by blast
  have e: "lo + 1 - 1 = lo" "hi + 1 - 1 = hi" by simp_all
  note r' = r(4-7)[unfolded m e]
  have out: "\<forall>p. 0 \<le> p \<and> p < int (length xs) \<and> p \<notin> {lo, lo + 1, (lo + hi) div 2, hi}
                  \<longrightarrow> xs' ! nat p = xs ! nat p"
    using r'(1) by auto
  have "rd W xs' (lo + 1) = Inr (xs' ! nat (lo + 1))"
    using assms r(2) by (intro rd_ok) (auto simp: INSERTION_THRESHOLD_def)
  then have ps: "partition_scan key W xs' (lo + 1) (hi + 1)
               = (case partition_loop key W xs' (lo + 1 + 1) (hi + 1) (xs' ! nat (lo + 1)) of
                    Inl e \<Rightarrow> Inl e
                  | Inr (xs1, i, j) \<Rightarrow>
                      (case rd W xs1 (j - 1) of Inl e \<Rightarrow> Inl e | Inr v \<Rightarrow>
                       case wr W xs1 (lo + 1) v of Inl e \<Rightarrow> Inl e | Inr xs2 \<Rightarrow>
                       case wr W xs2 (j - 1) (xs' ! nat (lo + 1)) of Inl e \<Rightarrow> Inl e
                       | Inr xs3 \<Rightarrow> Inr (xs3, i, j)))"
    unfolding partition_scan_def by simp
  show ?thesis
    using r(1,2,3) out r'(2,3,4) ps by blast
qed

theorem median3_places_median_witness:
  "\<exists>xs'. median3 id (0, 11) [9,8,7,6,5,4,3,2,1,0,11,10::int] (0 + 1) (11 + 1) = Inr xs'
     \<and> xs' ! nat (0 + 1) = 9
     \<and> {#xs' ! nat 0, xs' ! nat (0 + 1), xs' ! nat 11#} = {#9, 4, 10#}"
proof -
  let ?xs = "[9,8,7,6,5,4,3,2,1,0,11,10::int]"
  have h: "(0::int) \<le> 0" "11 < int (length ?xs)" "fst (0::int, 11::int) \<le> 0"
    "11 \<le> snd (0::int, 11::int)" "\<not> ((11::int) + 1) - (0 + 1) < INSERTION_THRESHOLD"
    by (simp_all add: INSERTION_THRESHOLD_def)
  from median3_places_median[OF h, of id]
  obtain xs' where r: "median3 id (0, 11) ?xs (0 + 1) (11 + 1) = Inr xs'"
    "{#xs' ! nat 0, xs' ! nat (0 + 1), xs' ! nat 11#}
       = {#?xs ! nat 0, ?xs ! nat ((0 + 11) div 2), ?xs ! nat 11#}"
    by blast
  have "median3 id (0, 11) ?xs (0 + 1) (11 + 1) = Inr [4,9,7,6,5,8,3,2,1,0,11,10]"
    by (simp add: run_simps)
  with r(1) have "xs' = [4,9,7,6,5,8,3,2,1,0,11,10]" by simp
  then have "xs' ! nat (0 + 1) = 9" by simp
  moreover have "{#xs' ! nat 0, xs' ! nat (0 + 1), xs' ! nat 11#} = {#9, 4, 10#}"
    using r(2) by simp
  ultimately show ?thesis using r(1) by blast
qed

text \<open>
  Claim C6. On a working subrange \<open>lo..hi\<close> that the median of three has prepared (the
  pivot cell \<open>lo + 1\<close> is at most the cell \<open>hi\<close>), the partition scan run with the
  window \<open>(lo, hi)\<close>, which faults on any read or write outside the subrange, returns
  without a fault; the cells the cursors stop at lie between \<open>lo + 1\<close> and \<open>hi\<close>; and
  the run under any larger window gives the same result.
\<close>

theorem partition_scan_stays_in_subrange:
  fixes lo hi :: int
  assumes "0 \<le> lo" "hi < int (length xs)" "2 \<le> hi - lo"
    and "key (xs ! nat (lo + 1)) \<le> key (xs ! nat hi)"
  shows "\<exists>xs' i j. partition_scan key (lo, hi) xs (lo + 1) (hi + 1) = Inr (xs', i, j)
           \<and> lo + 1 \<le> j - 1 \<and> j - 1 < i - 1 \<and> i - 1 \<le> hi
           \<and> (\<forall>W. fst W \<le> lo \<and> hi \<le> snd W
                  \<longrightarrow> partition_scan key W xs (lo + 1) (hi + 1) = Inr (xs', i, j))"
proof -
  have b: "fst (lo, hi) \<le> lo + 1" "hi + 1 - 1 \<le> snd (lo, hi)" "0 \<le> lo + 1"
    "hi + 1 \<le> int (length xs)" "2 \<le> hi + 1 - (lo + 1)"
    "key (xs ! nat (lo + 1)) \<le> key (xs ! nat (hi + 1 - 1))"
    using assms by auto
  from partition_scan_spec[OF b]
  obtain xs' i j where r: "partition_scan key (lo, hi) xs (lo + 1) (hi + 1) = Inr (xs', i, j)"
    "lo + 1 + 1 \<le> j" "j < i" "i \<le> hi + 1" by blast
  have "partition_scan key W xs (lo + 1) (hi + 1) = Inr (xs', i, j)"
    if "fst W \<le> lo \<and> hi \<le> snd W" for W
    using that by (intro partition_scan_window_mono[OF r(1)]) auto
  with r show ?thesis by (intro exI[of _ xs'] exI[of _ i] exI[of _ j]) auto
qed

theorem partition_scan_stays_in_subrange_witness:
  "\<exists>xs' i j. partition_scan id (0, 11) [4,9,7,6,5,8,3,2,1,0,11,10::int] (0 + 1) (11 + 1)
       = Inr (xs', i, j)
     \<and> 0 + 1 \<le> j - 1 \<and> j - 1 < i - 1 \<and> i - 1 \<le> 11
     \<and> xs' = [4,0,7,6,5,8,3,2,1,9,11,10] \<and> i = 11 \<and> j = 10"
proof -
  let ?xs = "[4,9,7,6,5,8,3,2,1,0,11,10::int]"
  have h: "(0::int) \<le> 0" "11 < int (length ?xs)" "(2::int) \<le> 11 - 0"
    "id (?xs ! nat (0 + 1)) \<le> id (?xs ! nat 11)"
    by simp_all
  from partition_scan_stays_in_subrange[OF h]
  obtain xs' i j where r: "partition_scan id (0, 11) ?xs (0 + 1) (11 + 1) = Inr (xs', i, j)"
    "0 + 1 \<le> j - 1" "j - 1 < i - 1" "i - 1 \<le> 11"
    by blast
  have "partition_scan id (0, 11) ?xs (0 + 1) (11 + 1)
     = Inr ([4,0,7,6,5,8,3,2,1,9,11,10], 11, 10)"
    by (simp add: run_simps)
  with r(1) have "xs' = [4,0,7,6,5,8,3,2,1,9,11,10]" "i = 11" "j = 10" by simp_all
  with r show ?thesis by blast
qed

text \<open>
  Claim C7. For every count \<open>n\<close> and every array, \<^verbatim>\<open>insertion_sort(n, arr)\<close> sorts the
  \<open>n\<close> cells from \<open>arr\<close> on in place into non-descending order; the result is a
  permutation of the input; and the sort is stable: the elements of each key keep the
  order they had in the input. The cells before and after the subrange are untouched,
  and no access leaves the subrange.
\<close>

theorem insertion_sort_sorts_stably:
  assumes "0 \<le> arr" "0 \<le> n" "arr + n \<le> int (length xs)"
    and "fst W \<le> arr" "arr + n - 1 \<le> snd W"
  shows "\<exists>xs'. insertion_sort key W n arr xs = Inr xs' \<and> length xs' = length xs
           \<and> take (nat arr) xs' = take (nat arr) xs
           \<and> drop (nat (arr + n)) xs' = drop (nat (arr + n)) xs
           \<and> sorted (map key (take (nat n) (drop (nat arr) xs')))
           \<and> mset (take (nat n) (drop (nat arr) xs')) = mset (take (nat n) (drop (nat arr) xs))
           \<and> (\<forall>k. filter (\<lambda>x. key x = k) (take (nat n) (drop (nat arr) xs'))
                    = filter (\<lambda>x. key x = k) (take (nat n) (drop (nat arr) xs)))"
proof -
  from insertion_sort_spec[OF assms, of key]
  obtain seg' where r: "insertion_sort key W n arr xs
        = Inr (take (nat arr) xs @ seg' @ drop (nat (arr + n)) xs)"
    and ss: "stable_sorted key (take (nat n) (drop (nat arr) xs)) seg'" by blast
  let ?xs' = "take (nat arr) xs @ seg' @ drop (nat (arr + n)) xs"
  have "size (mset seg') = size (mset (take (nat n) (drop (nat arr) xs)))"
    using ss by (simp add: stable_sorted_def)
  then have ls: "length seg' = nat n" using assms by simp
  have la: "length (take (nat arr) xs) = nat arr" using assms by simp
  have an: "nat (arr + n) = nat arr + nat n" using assms by (simp add: nat_add_distrib)
  have len: "length ?xs' = length xs" using ls la an assms by simp
  have t: "take (nat arr) ?xs' = take (nat arr) xs" using la by simp
  have d: "drop (nat (arr + n)) ?xs' = drop (nat (arr + n)) xs"
    using la ls an by simp
  have sg: "take (nat n) (drop (nat arr) ?xs') = seg'" using la ls by simp
  have "sorted (map key (take (nat n) (drop (nat arr) ?xs')))"
    and "mset (take (nat n) (drop (nat arr) ?xs')) = mset (take (nat n) (drop (nat arr) xs))"
    and "\<forall>k. filter (\<lambda>x. key x = k) (take (nat n) (drop (nat arr) ?xs'))
                    = filter (\<lambda>x. key x = k) (take (nat n) (drop (nat arr) xs))"
    using ss by (simp_all only: sg stable_sorted_def simp_thms)
  with r len t d show ?thesis by blast
qed

theorem insertion_sort_sorts_stably_witness:
  "\<exists>xs'. insertion_sort fst (0, 4) 5 0
            [(2::int, ''a''), (1, ''b''), (2, ''c''), (1, ''d''), (0, ''e'')] = Inr xs'
     \<and> sorted (map fst (take 5 xs'))
     \<and> filter (\<lambda>x. fst x = 1) (take 5 xs') = [(1, ''b''), (1, ''d'')]"
proof -
  let ?xs = "[(2::int, ''a''), (1, ''b''), (2, ''c''), (1, ''d''), (0, ''e'')]"
  have h: "(0::int) \<le> 0" "(0::int) \<le> 5" "0 + 5 \<le> int (length ?xs)"
    "fst (0::int, 4::int) \<le> 0" "0 + 5 - 1 \<le> snd (0::int, 4::int)"
    by simp_all
  from insertion_sort_sorts_stably[OF h, of fst]
  obtain xs' where r: "insertion_sort fst (0, 4) 5 0 ?xs = Inr xs'"
    "sorted (map fst (take (nat 5) (drop (nat 0) xs')))"
    "\<forall>k. filter (\<lambda>x. fst x = k) (take (nat 5) (drop (nat 0) xs'))
          = filter (\<lambda>x. fst x = k) (take (nat 5) (drop (nat 0) ?xs))"
    by blast
  from r(3) have "filter (\<lambda>x. fst x = 1) (take (nat 5) (drop (nat 0) xs'))
          = filter (\<lambda>x. fst x = 1) (take (nat 5) (drop (nat 0) ?xs))" by blast
  then have "filter (\<lambda>x. fst x = 1) (take 5 xs') = [(1, ''b''), (1, ''d'')]" by simp
  moreover have "sorted (map fst (take 5 xs'))" using r(2) by simp
  ultimately show ?thesis using r(1) by blast
qed

text \<open>
  Claim C8. \<open>sort\<close> ends on every input, arrays of equal elements included: the loop
  never runs forever. Its only way to end other than by returning is the store past the
  50 slots of the stack, which needs \<open>n \<ge> 11 * 2 ^ 24\<close>. In the partition scan each
  cursor moves at every iteration of the inner loop: the ascending scan returns a
  cursor above the one it started from, the descending scan one below.
\<close>

theorem sort_terminates:
  assumes "n \<le> length xs"
  shows "(\<exists>r. sort key n xs = Some r)
       \<and> (\<forall>e. sort key n xs = Some (Inl e) \<longrightarrow> e = StackBounds \<and> 11 * 2 ^ 24 \<le> n)
       \<and> (\<forall>W ys i j a i' j'. scan_up key W ys i a = Inr i' \<and> scan_down key W ys j a = Inr j'
             \<longrightarrow> i < i' \<and> j' < j)"
proof -
  have "11 * 2 ^ 24 \<le> n" if "11 * 2 ^ 24 \<le> int n"
  proof -
    from that have "int (11 * 2 ^ 24) \<le> int n" by simp
    then show ?thesis by (simp only: of_nat_le_iff)
  qed
  with sort_total[OF assms, of key]
  have t: "(\<exists>r. sort key n xs = Some r)
       \<and> (\<forall>e. sort key n xs = Some (Inl e) \<longrightarrow> e = StackBounds \<and> 11 * 2 ^ 24 \<le> n)"
    by auto
  have c: "\<forall>W ys i j a i' j'. scan_up key W ys i a = Inr i' \<and> scan_down key W ys j a = Inr j'
             \<longrightarrow> i < i' \<and> j' < j"
  proof (intro allI impI)
    fix W ys i j a i' j'
    assume "scan_up key W ys i a = Inr i' \<and> scan_down key W ys j a = Inr j'"
    then show "i < i' \<and> j' < j"
      using scan_up_progress[of key W ys i a i'] scan_down_progress[of key W ys j a j'] by simp
  qed
  from t c show ?thesis by (intro conjI) simp_all
qed

theorem sort_terminates_witness:
  "(\<exists>r. sort id 12 [5,5,5,5,5,5,5,5,5,5,5,5::int] = Some r)
   \<and> sort id 12 [5,5,5,5,5,5,5,5,5,5,5,5::int] \<noteq> Some (Inl ArrayBounds)"
proof -
  have h: "12 \<le> length [5,5,5,5,5,5,5,5,5,5,5,5::int]" by simp
  from sort_terminates[OF h, of id] show ?thesis by auto
qed

text \<open>
  Claim C9. For \<open>n = 0\<close> and \<open>n = 1\<close> the first pass of the main loop leaves through
  \<^verbatim>\<open>break\<close> with the state unchanged (the array, the stack and the stack pointer), no
  other state is reached, and \<open>sort\<close> returns the array as it was. In any state, a
  current subrange of at most one cell goes to the insertion branch, never to the
  partition, and the insertion pass leaves the array as it is; and in no execution does
  the stack hold a subrange of fewer than two cells.
\<close>

theorem sort_trivial_is_noop:
  assumes "n \<le> 1"
  shows "sort_body key (0, int n - 1) (sort_init n xs) = Inr (True, sort_init n xs)
       \<and> sort key n xs = Some (Inr xs)
       \<and> (\<forall>s. reach key n xs s \<longrightarrow> s = sort_init n xs)
       \<and> (\<forall>W s. ir s \<le> l s \<and> l s \<le> ir s + 1 \<longrightarrow>
             sort_body key W s = small_branch key W s
             \<and> insertion_sort key W (ir s - l s + 1) (l s - 1) (mem s) = Inr (mem s))
       \<and> (\<forall>m ys s k pl pir. reach key m ys s \<and> m \<le> length ys \<and> on_stack s k pl pir
             \<longrightarrow> pl < pir)"
proof -
  note b = sort_init_small_break[OF assms, of key "(0, int n - 1)" xs]
  have "sort key n xs = Some (Inr (mem (sort_init n xs)))"
    unfolding sort_def by (subst sort_loop.simps) (simp add: b)
  then have s: "sort key n xs = Some (Inr xs)" by (simp add: sort_init_def)
  have r: "s = sort_init n xs" if "reach key n xs s" for s
    using that
  proof (induction rule: reach.induct)
    case reach_init
    show ?case by simp
  next
    case (reach_step s s')
    with b show ?case by simp
  qed
  have g: "sort_body key W s = small_branch key W s
             \<and> insertion_sort key W (ir s - l s + 1) (l s - 1) (mem s) = Inr (mem s)"
    if "ir s \<le> l s \<and> l s \<le> ir s + 1" for W and s :: "'a sort_state"
  proof -
    have "sort_body key W s = small_branch key W s"
      using that by (simp add: sort_body_def INSERTION_THRESHOLD_def)
    moreover have "insertion_sort key W (ir s - l s + 1) (l s - 1) (mem s) = Inr (mem s)"
      by (rule insertion_sort_short) (use that in auto)
    ultimately show ?thesis by simp
  qed
  have p: "pl < pir"
    if "reach key m ys s \<and> m \<le> length ys \<and> on_stack s k pl pir"
    for m ys k pl pir and s :: "'a sort_state"
  proof -
    have "sort_inv key m ys s" using that by (auto intro: reach_inv)
    from sort_invD(10)[OF this, of k pl pir] that show ?thesis by simp
  qed
  from b s r g p show ?thesis by blast
qed

theorem sort_trivial_is_noop_witness:
  "sort id 1 [7::int] = Some (Inr [7]) \<and> sort id 0 ([]::int list) = Some (Inr [])
   \<and> sort_body id (0, int 0 - 1) (sort_init 0 ([]::int list)) = Inr (True, sort_init 0 [])"
  using sort_trivial_is_noop[of 1 id "[7::int]"] sort_trivial_is_noop[of 0 id "[]::int list"]
  by simp

text \<open>
  Claim C10. For every \<open>n \<le> 2 ^ 24\<close> and every order of the input, \<open>sort\<close> returns
  normally and no pass of the main loop faults; in every state passed through, the slots
  of the stack that have been written lie between 1 and 48 (the slot 0 is never written)
  and the stack holds at most \<open>ceillog2 n \<le> 24\<close> pairs.
\<close>

theorem stack_stores_in_bounds:
  assumes "n \<le> length xs" "n \<le> 2 ^ 24"
  shows "(\<exists>ys. sort key n xs = Some (Inr ys))
       \<and> (\<forall>s. reach key n xs s \<longrightarrow>
             dom (stack s) \<subseteq> {1..48} \<and> stackp s \<le> 48
             \<and> stackp s div 2 \<le> int (ceillog2 n) \<and> ceillog2 n \<le> 24
             \<and> (\<forall>e. sort_body key (0, int n - 1) s \<noteq> Inl e))"
proof -
  have small: "\<not> 11 * 2 ^ 24 \<le> int n" using assms(2) by auto
  have "\<exists>ys. sort key n xs = Some (Inr ys)"
    using sort_total[OF assms(1), of key] small by auto
  moreover have "dom (stack s) \<subseteq> {1..48} \<and> stackp s \<le> 48
             \<and> stackp s div 2 \<le> int (ceillog2 n) \<and> ceillog2 n \<le> 24
             \<and> (\<forall>e. sort_body key (0, int n - 1) s \<noteq> Inl e)"
    if r: "reach key n xs s" for s
  proof -
    have inv: "sort_inv key n xs s" by (rule reach_inv[OF r assms(1)])
    note i = sort_invD[OF inv]
    have d: "stackp s \<le> 2 * int (ceillog2 n)" by (rule depth_log[OF inv])
    have c: "ceillog2 n \<le> 24"
    proof (cases "n = 0")
      case True
      then show ?thesis by simp
    next
      case False
      then show ?thesis using assms(2) by (simp add: ceillog2_le_iff)
    qed
    have "dom (stack s) \<subseteq> {1..48}" using i(8) by (simp add: NSTACK_def)
    moreover have "stackp s \<le> 48" using d c by linarith
    moreover have "stackp s div 2 \<le> int (ceillog2 n)" using d by linarith
    moreover have "\<forall>e. sort_body key (0, int n - 1) s \<noteq> Inl e"
      using sort_body_step[OF inv] small by auto
    ultimately show ?thesis using c by blast
  qed
  ultimately show ?thesis by blast
qed

theorem stack_stores_in_bounds_witness:
  "(\<exists>ys. sort id 12 [9,8,7,6,5,4,3,2,1,0,11,10::int] = Some (Inr ys))
   \<and> reach id 12 [9,8,7,6,5,4,3,2,1,0,11,10::int]
     \<lparr>mem = [4,0,7,6,5,8,3,2,1,9,11,10], ir = 12, l = 11,
        stack = [2 \<mapsto> 9, 1 \<mapsto> 1], stackp = 2\<rparr>
   \<and> dom ([2 \<mapsto> 9, 1 \<mapsto> 1] :: int \<Rightarrow> int option) \<subseteq> {1..48}"
proof -
  let ?xs = "[9,8,7,6,5,4,3,2,1,0,11,10::int]"
  let ?s = "\<lparr>mem = [4,0,7,6,5,8,3,2,1,9,11,10::int], ir = 12, l = 11,
        stack = [2 \<mapsto> 9, 1 \<mapsto> 1], stackp = 2\<rparr>"
  have b: "sort_body id (0, int 12 - 1) (sort_init 12 ?xs) = Inr (False, ?s)"
    by (simp add: run_simps)
  have r: "reach id 12 ?xs ?s" by (rule reach_step[OF reach_init b])
  have h: "12 \<le> length ?xs" "(12::nat) \<le> 2 ^ 24" by simp_all
  from stack_stores_in_bounds[OF h, of id] r
  have "(\<exists>ys. sort id 12 ?xs = Some (Inr ys)) \<and> dom (stack ?s) \<subseteq> {1..48}" by blast
  with r show ?thesis by simp
qed

end
